theory Spec2Isabelle
  imports Complex_Main "HOL-Library.Word"
begin

unbundle bit_operations_syntax

section \<open>Vectors and matrices (the part of glm the program uses)\<close>

text \<open>
  The program computes with \<^verbatim>\<open>float\<close>; the embedding idealises every scalar as a
  \<^typ>\<open>real\<close>. A \<^verbatim>\<open>glm::mat4\<close> is column-major: \<^verbatim>\<open>m[i]\<close> is the i-th column.
  The functions of this section are glm's, written out after glm's definitions, because
  the program's own functions are built from them.
\<close>

datatype vec3 = vec3 (vec3_x: real) (vec3_y: real) (vec3_z: real)

datatype vec4 = vec4 (vec4_x: real) (vec4_y: real) (vec4_z: real) (vec4_w: real)

datatype mat4 = mat4 (col0: vec4) (col1: vec4) (col2: vec4) (col3: vec4)

definition vec4_add :: "vec4 \<Rightarrow> vec4 \<Rightarrow> vec4" where
  "vec4_add a b =
     vec4 (vec4_x a + vec4_x b) (vec4_y a + vec4_y b) (vec4_z a + vec4_z b) (vec4_w a + vec4_w b)"

definition vec4_smul :: "vec4 \<Rightarrow> real \<Rightarrow> vec4" where
  "vec4_smul a k = vec4 (vec4_x a * k) (vec4_y a * k) (vec4_z a * k) (vec4_w a * k)"

definition vec3_add :: "vec3 \<Rightarrow> vec3 \<Rightarrow> vec3" where
  "vec3_add a b = vec3 (vec3_x a + vec3_x b) (vec3_y a + vec3_y b) (vec3_z a + vec3_z b)"

definition vec3_neg :: "vec3 \<Rightarrow> vec3" where
  "vec3_neg a = vec3 (- vec3_x a) (- vec3_y a) (- vec3_z a)"

definition vec3_div :: "vec3 \<Rightarrow> real \<Rightarrow> vec3" where
  "vec3_div a k = vec3 (vec3_x a / k) (vec3_y a / k) (vec3_z a / k)"

definition vec3_smul :: "real \<Rightarrow> vec3 \<Rightarrow> vec3" where
  "vec3_smul k a = vec3 (k * vec3_x a) (k * vec3_y a) (k * vec3_z a)"

text \<open>\<^verbatim>\<open>glm::mat4(1.0f)\<close>: the identity.\<close>

definition mat4_id :: mat4 where
  "mat4_id = mat4 (vec4 1 0 0 0) (vec4 0 1 0 0) (vec4 0 0 1 0) (vec4 0 0 0 1)"

text \<open>\<^verbatim>\<open>m * v\<close>: the linear combination of the columns of \<open>m\<close>.\<close>

definition mat_vec :: "mat4 \<Rightarrow> vec4 \<Rightarrow> vec4" where
  "mat_vec m v =
     vec4_add (vec4_add (vec4_add (vec4_smul (col0 m) (vec4_x v)) (vec4_smul (col1 m) (vec4_y v)))
                (vec4_smul (col2 m) (vec4_z v)))
       (vec4_smul (col3 m) (vec4_w v))"

text \<open>\<^verbatim>\<open>a * b\<close> on matrices: column j of the product is \<open>a\<close> applied to column j of \<open>b\<close>.\<close>

definition mat_mul :: "mat4 \<Rightarrow> mat4 \<Rightarrow> mat4" where
  "mat_mul a b = mat4 (mat_vec a (col0 b)) (mat_vec a (col1 b)) (mat_vec a (col2 b)) (mat_vec a (col3 b))"

text \<open>\<^verbatim>\<open>glm::translate(m, v)\<close>: only the last column changes.\<close>

definition translate :: "mat4 \<Rightarrow> vec3 \<Rightarrow> mat4" where
  "translate m v =
     mat4 (col0 m) (col1 m) (col2 m)
       (vec4_add (vec4_add (vec4_add (vec4_smul (col0 m) (vec3_x v)) (vec4_smul (col1 m) (vec3_y v)))
                  (vec4_smul (col2 m) (vec3_z v)))
         (col3 m))"

text \<open>\<^verbatim>\<open>glm::scale(m, v)\<close>: the first three columns are scaled.\<close>

definition scale_mat :: "mat4 \<Rightarrow> vec3 \<Rightarrow> mat4" where
  "scale_mat m v =
     mat4 (vec4_smul (col0 m) (vec3_x v)) (vec4_smul (col1 m) (vec3_y v))
          (vec4_smul (col2 m) (vec3_z v)) (col3 m)"

text \<open>\<^verbatim>\<open>glm::normalize(v)\<close> is \<^verbatim>\<open>v * inversesqrt(dot(v, v))\<close>.\<close>

definition normalize :: "vec3 \<Rightarrow> vec3" where
  "normalize v =
     vec3_smul (1 / sqrt (vec3_x v * vec3_x v + vec3_y v * vec3_y v + vec3_z v * vec3_z v)) v"

text \<open>\<^verbatim>\<open>glm::rotate(m, angle, v)\<close>: \<open>m\<close> times the rotation by \<open>angle\<close> about the
  normalised axis \<open>v\<close>.\<close>

definition rotate_mat :: "mat4 \<Rightarrow> real \<Rightarrow> vec3 \<Rightarrow> mat4" where
  "rotate_mat m angle v =
     (let c = cos angle; s = sin angle;
          axis = normalize v;
          temp = vec3_smul (1 - c) axis;
          r00 = c + vec3_x temp * vec3_x axis;
          r01 = vec3_x temp * vec3_y axis + s * vec3_z axis;
          r02 = vec3_x temp * vec3_z axis - s * vec3_y axis;
          r10 = vec3_y temp * vec3_x axis - s * vec3_z axis;
          r11 = c + vec3_y temp * vec3_y axis;
          r12 = vec3_y temp * vec3_z axis + s * vec3_x axis;
          r20 = vec3_z temp * vec3_x axis + s * vec3_y axis;
          r21 = vec3_z temp * vec3_y axis - s * vec3_x axis;
          r22 = c + vec3_z temp * vec3_z axis
      in mat4
          (vec4_add (vec4_add (vec4_smul (col0 m) r00) (vec4_smul (col1 m) r01)) (vec4_smul (col2 m) r02))
          (vec4_add (vec4_add (vec4_smul (col0 m) r10) (vec4_smul (col1 m) r11)) (vec4_smul (col2 m) r12))
          (vec4_add (vec4_add (vec4_smul (col0 m) r20) (vec4_smul (col1 m) r21)) (vec4_smul (col2 m) r22))
          (col3 m))"

text \<open>\<^verbatim>\<open>glm::radians(d)\<close>.\<close>

definition radians :: "real \<Rightarrow> real" where
  "radians d = d * (pi / 180)"


section \<open>Shapes (shape.hpp, shape.cpp)\<close>

datatype ShapeType = SPHERE_SHAPE | CYLINDER_SHAPE | BOX_SHAPE | CONE_SHAPE

text \<open>The value of an enumerator as \<^verbatim>\<open>int\<close> (what \<^verbatim>\<open>out << type\<close> prints and
  \<^verbatim>\<open>switch(type)\<close> compares with).\<close>

fun ShapeType_int :: "ShapeType \<Rightarrow> int" where
  "ShapeType_int SPHERE_SHAPE = 0"
| "ShapeType_int CYLINDER_SHAPE = 1"
| "ShapeType_int BOX_SHAPE = 2"
| "ShapeType_int CONE_SHAPE = 3"

text \<open>
  \<^verbatim>\<open>shape_t\<close> without its OpenGL handles (\<^verbatim>\<open>VAO\<close>, \<^verbatim>\<open>VBO\<close>,
  \<^verbatim>\<open>buffers_initialized\<close>), which only rendering reads. \<^verbatim>\<open>level\<close> is an
  \<^verbatim>\<open>unsigned int\<close>.
\<close>

record shape_t =
  vertices :: "vec4 list"
  colors :: "vec4 list"
  shapetype :: ShapeType
  level :: "32 word"

text \<open>The base constructor: \<^verbatim>\<open>if (level > 4) level = 4\<close>.\<close>

definition clamp_level :: "32 word \<Rightarrow> 32 word" where
  "clamp_level tessLevel = (if tessLevel > 4 then 4 else tessLevel)"

text \<open>
  Every generator pushes a vertex and its colour together; the model builds the list of
  pairs in the order of the pushes and splits it afterwards.
\<close>

definition sphere_quad :: "nat \<Rightarrow> nat \<Rightarrow> nat \<Rightarrow> nat \<Rightarrow> (vec4 \<times> vec4) list" where
  "sphere_quad stacks slices i j =
     (let phi1 = pi * real i / real stacks;
          phi2 = pi * real (i + 1) / real stacks;
          theta1 = 2 * pi * real j / real slices;
          theta2 = 2 * pi * real (j + 1) / real slices;
          p1 = vec4 (sin phi1 * cos theta1) (cos phi1) (sin phi1 * sin theta1) 1;
          p2 = vec4 (sin phi2 * cos theta1) (cos phi2) (sin phi2 * sin theta1) 1;
          p3 = vec4 (sin phi2 * cos theta2) (cos phi2) (sin phi2 * sin theta2) 1;
          p4 = vec4 (sin phi1 * cos theta2) (cos phi1) (sin phi1 * sin theta2) 1
      in [(p1, vec4 1 0 0 1), (p2, vec4 0 1 0 1), (p3, vec4 0 0 1 1),
          (p1, vec4 1 0 0 1), (p3, vec4 0 0 1 1), (p4, vec4 1 1 0 1)])"

definition makeSphere :: "32 word \<Rightarrow> (vec4 \<times> vec4) list" where
  "makeSphere lvl =
     (let stacks0 = 6 * push_bit (unat lvl) (1 :: 32 word);
          slices0 = 6 * push_bit (unat lvl) (1 :: 32 word);
          stacks = (if stacks0 < 6 then 6 else stacks0);
          slices = (if slices0 < 6 then 6 else slices0)
      in concat (map (\<lambda>i. concat (map (\<lambda>j. sphere_quad (unat stacks) (unat slices) i j)
                                     [0 ..< unat slices]))
                     [0 ..< unat stacks]))"

definition sphere_t :: "32 word \<Rightarrow> shape_t" where
  "sphere_t tessLevel =
     (let lvl = clamp_level tessLevel; vc = makeSphere lvl
      in \<lparr>vertices = map fst vc, colors = map snd vc, shapetype = SPHERE_SHAPE, level = lvl\<rparr>)"

definition cylinder_side :: "nat \<Rightarrow> nat \<Rightarrow> (vec4 \<times> vec4) list" where
  "cylinder_side slices i =
     (let height = 1; radius = 1 / 2;
          theta1 = 2 * pi * real i / real slices;
          theta2 = 2 * pi * real (i + 1) / real slices;
          p1 = vec4 (radius * cos theta1) (- height / 2) (radius * sin theta1) 1;
          p2 = vec4 (radius * cos theta2) (- height / 2) (radius * sin theta2) 1;
          p3 = vec4 (radius * cos theta2) (height / 2) (radius * sin theta2) 1;
          p4 = vec4 (radius * cos theta1) (height / 2) (radius * sin theta1) 1
      in [(p1, vec4 1 0 0 1), (p2, vec4 0 1 0 1), (p3, vec4 0 0 1 1),
          (p1, vec4 1 0 0 1), (p3, vec4 0 0 1 1), (p4, vec4 1 1 0 1)])"

definition cylinder_cap :: "nat \<Rightarrow> nat \<Rightarrow> (vec4 \<times> vec4) list" where
  "cylinder_cap slices i =
     (let height = 1; radius = 1 / 2;
          centerBottom = vec4 0 (- height / 2) 0 1;
          centerTop = vec4 0 (height / 2) 0 1;
          t1 = 2 * pi * real i / real slices;
          t2 = 2 * pi * real (i + 1) / real slices;
          b1 = vec4 (radius * cos t1) (- height / 2) (radius * sin t1) 1;
          b2 = vec4 (radius * cos t2) (- height / 2) (radius * sin t2) 1;
          t1v = vec4 (radius * cos t1) (height / 2) (radius * sin t1) 1;
          t2v = vec4 (radius * cos t2) (height / 2) (radius * sin t2) 1
      in [(centerBottom, vec4 1 0 1 1), (b1, vec4 0 1 1 1), (b2, vec4 1 1 1 1),
          (centerTop, vec4 1 0 1 1), (t2v, vec4 0 1 1 1), (t1v, vec4 1 1 1 1)])"

definition makeCylinder :: "32 word \<Rightarrow> (vec4 \<times> vec4) list" where
  "makeCylinder lvl =
     (let slices0 = 8 * push_bit (unat lvl) (1 :: 32 word);
          slices = (if slices0 < 8 then 8 else slices0)
      in concat (map (cylinder_side (unat slices)) [0 ..< unat slices])
         @ concat (map (cylinder_cap (unat slices)) [0 ..< unat slices]))"

definition cylinder_t :: "32 word \<Rightarrow> shape_t" where
  "cylinder_t tessLevel =
     (let lvl = clamp_level tessLevel; vc = makeCylinder lvl
      in \<lparr>vertices = map fst vc, colors = map snd vc, shapetype = CYLINDER_SHAPE, level = lvl\<rparr>)"

definition box_pts :: "vec4 list" where
  "box_pts =
     (let h = 1 / 2
      in [vec4 (- h) (- h) (- h) 1, vec4 h (- h) (- h) 1, vec4 h h (- h) 1, vec4 (- h) h (- h) 1,
          vec4 (- h) (- h) h 1, vec4 h (- h) h 1, vec4 h h h 1, vec4 (- h) h h 1])"

definition box_faces :: "nat list list" where
  "box_faces = [[0, 1, 2, 3], [4, 7, 6, 5], [0, 4, 5, 1], [2, 6, 7, 3], [0, 3, 7, 4], [1, 5, 6, 2]]"

definition box_cols :: "vec4 list" where
  "box_cols = [vec4 1 0 0 1, vec4 0 1 0 1, vec4 0 0 1 1, vec4 1 1 0 1, vec4 0 1 1 1, vec4 1 0 1 1]"

definition box_face :: "nat \<Rightarrow> (vec4 \<times> vec4) list" where
  "box_face f =
     (let q = box_faces ! f; c = box_cols ! f
      in [(box_pts ! (q ! 0), c), (box_pts ! (q ! 1), c), (box_pts ! (q ! 2), c),
          (box_pts ! (q ! 0), c), (box_pts ! (q ! 2), c), (box_pts ! (q ! 3), c)])"

text \<open>\<^verbatim>\<open>for (int f = 0; f < 6; f++)\<close>: every index read is in range.\<close>

definition makeBox :: "(vec4 \<times> vec4) list" where
  "makeBox = concat (map box_face [0 ..< 6])"

definition box_t :: "32 word \<Rightarrow> shape_t" where
  "box_t tessLevel =
     (let lvl = clamp_level tessLevel; vc = makeBox
      in \<lparr>vertices = map fst vc, colors = map snd vc, shapetype = BOX_SHAPE, level = lvl\<rparr>)"

definition cone_slice :: "nat \<Rightarrow> nat \<Rightarrow> (vec4 \<times> vec4) list" where
  "cone_slice slices i =
     (let radius = 1 / 2; height = 1;
          apex = vec4 0 (height / 2) 0 1;
          center = vec4 0 (- height / 2) 0 1;
          t1 = 2 * pi * real i / real slices;
          t2 = 2 * pi * real (i + 1) / real slices;
          b1 = vec4 (radius * cos t1) (- height / 2) (radius * sin t1) 1;
          b2 = vec4 (radius * cos t2) (- height / 2) (radius * sin t2) 1
      in [(apex, vec4 1 0 0 1), (b1, vec4 0 1 0 1), (b2, vec4 0 0 1 1),
          (center, vec4 1 1 0 1), (b2, vec4 0 1 1 1), (b1, vec4 1 0 1 1)])"

definition makeCone :: "32 word \<Rightarrow> (vec4 \<times> vec4) list" where
  "makeCone lvl =
     (let slices0 = 8 * push_bit (unat lvl) (1 :: 32 word);
          slices = (if slices0 < 8 then 8 else slices0)
      in concat (map (cone_slice (unat slices)) [0 ..< unat slices]))"

definition cone_t :: "32 word \<Rightarrow> shape_t" where
  "cone_t tessLevel =
     (let lvl = clamp_level tessLevel; vc = makeCone lvl
      in \<lparr>vertices = map fst vc, colors = map snd vc, shapetype = CONE_SHAPE, level = lvl\<rparr>)"


section \<open>Scene nodes (model.hpp, model.cpp)\<close>

text \<open>
  Nodes and shapes live in the free store and are referred to by pointers. The model keeps
  an explicit store: an address is a natural number, a null pointer is \<open>None\<close>, and a
  store maps the addresses of the live objects to their values. Reading or deleting
  through a pointer to an object that is not live is undefined behaviour in C++; every
  operation that does so has no result in the model (\<open>None\<close>).
\<close>

type_synonym addr = nat

record model_node =
  shape :: "addr option"
  translation :: mat4
  rotation :: mat4
  scale :: mat4
  color :: vec4
  parent :: "addr option"
  children :: "addr list"

type_synonym node_store = "addr \<rightharpoonup> model_node"

type_synonym shape_store = "addr \<rightharpoonup> shape_t"

text \<open>The member initialisers of \<^verbatim>\<open>model_node::model_node(s, p)\<close>.\<close>

definition model_node_init :: "addr option \<Rightarrow> addr option \<Rightarrow> model_node" where
  "model_node_init s p =
     \<lparr>shape = s, translation = mat4_id, rotation = mat4_id, scale = mat4_id,
      color = vec4 1 1 1 1, parent = p, children = []\<rparr>"

text \<open>\<^verbatim>\<open>children.push_back(c); c->parent = this;\<close>\<close>

definition add_child :: "node_store \<Rightarrow> addr \<Rightarrow> addr \<Rightarrow> node_store option" where
  "add_child h this c =
     (case h this of
        None \<Rightarrow> None
      | Some n \<Rightarrow>
          (let h1 = h(this \<mapsto> n\<lparr>children := children n @ [c]\<rparr>)
           in case h1 c of
                None \<Rightarrow> None
              | Some cn \<Rightarrow> Some (h1(c \<mapsto> cn\<lparr>parent := Some this\<rparr>))))"

text \<open>\<^verbatim>\<open>children.erase(std::remove(begin, end, c), end)\<close> removes every occurrence.\<close>

definition remove_child :: "node_store \<Rightarrow> addr \<Rightarrow> addr \<Rightarrow> node_store option" where
  "remove_child h this c =
     (case h this of
        None \<Rightarrow> None
      | Some n \<Rightarrow> Some (h(this \<mapsto> n\<lparr>children := removeAll c (children n)\<rparr>)))"

text \<open>\<^verbatim>\<open>return translation * rotation * scale;\<close> (the product associates to the left).\<close>

definition local_matrix :: "model_node \<Rightarrow> mat4" where
  "local_matrix n = mat_mul (mat_mul (translation n) (rotation n)) (scale n)"

text \<open>
  \<^verbatim>\<open>get_world_matrix\<close> follows the parent pointers. On a store whose parent pointers
  form a cycle the C++ recursion does not return; the model then has no result either.
\<close>

partial_function (option) get_world_matrix :: "node_store \<Rightarrow> addr \<Rightarrow> mat4 option" where
  "get_world_matrix h this =
     (case h this of
        None \<Rightarrow> None
      | Some n \<Rightarrow>
          (case parent n of
             Some p \<Rightarrow> Option.bind (get_world_matrix h p) (\<lambda>w. Some (mat_mul w (local_matrix n)))
           | None \<Rightarrow> Some (local_matrix n)))"

text \<open>
  \<^verbatim>\<open>collect\<close>: \<open>collect_all h cs\<close> is the loop
  \<^verbatim>\<open>for (auto c : cs) c->collect(out)\<close> and returns what it appends to \<open>out\<close>: each
  \<open>c\<close> itself, then the nodes below it, then the rest of the loop.
\<close>

partial_function (option) collect_all :: "node_store \<Rightarrow> addr list \<Rightarrow> addr list option" where
  "collect_all h cs =
     (case cs of
        [] \<Rightarrow> Some []
      | c # rest \<Rightarrow>
          (case h c of
             None \<Rightarrow> None
           | Some n \<Rightarrow>
               Option.bind (collect_all h (children n)) (\<lambda>sub.
               Option.bind (collect_all h rest) (\<lambda>out. Some (c # sub @ out)))))"

definition collect :: "node_store \<Rightarrow> addr \<Rightarrow> addr list option" where
  "collect h this = collect_all h [this]"

text \<open>
  \<^verbatim>\<open>delete\<close> of a node: the destructor deletes the children first
  (\<^verbatim>\<open>for (auto c : children) delete c;\<close>), then the node's own storage is released.
  \<open>delete_all h cs\<close> is that loop over \<open>cs\<close>. Deleting an object twice has no result.
\<close>

partial_function (option) delete_all :: "node_store \<Rightarrow> addr list \<Rightarrow> node_store option" where
  "delete_all h cs =
     (case cs of
        [] \<Rightarrow> Some h
      | c # rest \<Rightarrow>
          (case h c of
             None \<Rightarrow> None
           | Some n \<Rightarrow>
               Option.bind (delete_all h (children n)) (\<lambda>h1. delete_all (h1(c := None)) rest)))"

definition delete_node :: "node_store \<Rightarrow> addr \<Rightarrow> node_store option" where
  "delete_node h this = delete_all h [this]"


section \<open>The scene graph (model.hpp, model.cpp)\<close>

text \<open>
  \<^verbatim>\<open>model_t\<close> with the store it works on. \<^verbatim>\<open>root\<close> is called \<open>root_node\<close> here
  (\<open>root\<close> is the n-th root of Complex\_Main). \<open>next_addr\<close> is the allocator: \<^verbatim>\<open>new\<close>
  returns an address that was never used before.
\<close>

record model_t =
  root_node :: addr
  all_nodes :: "addr list"
  owned_shapes :: "addr list"
  node_store :: node_store
  shape_store :: shape_store
  next_addr :: addr

definition alloc_node :: "model_node \<Rightarrow> model_t \<Rightarrow> addr \<times> model_t" where
  "alloc_node n m =
     (next_addr m, m\<lparr>node_store := (node_store m)(next_addr m \<mapsto> n), next_addr := Suc (next_addr m)\<rparr>)"

definition alloc_shape :: "shape_t \<Rightarrow> model_t \<Rightarrow> addr \<times> model_t" where
  "alloc_shape s m =
     (next_addr m, m\<lparr>shape_store := (shape_store m)(next_addr m \<mapsto> s), next_addr := Suc (next_addr m)\<rparr>)"

text \<open>
  \<^verbatim>\<open>new model_node(s, p)\<close>: \<^verbatim>\<open>if (parent) parent->add_child(this);\<close>
  A parent pointer that equals the address \<^verbatim>\<open>new\<close> returns did not point to a live
  object when it was passed; using it is undefined, like any other dangling pointer.
\<close>

definition new_model_node :: "addr option \<Rightarrow> addr option \<Rightarrow> model_t \<Rightarrow> (addr \<times> model_t) option" where
  "new_model_node s p m =
     (let (this, m1) = alloc_node (model_node_init s p) m
      in case p of
           None \<Rightarrow> Some (this, m1)
         | Some pa \<Rightarrow>
             if pa = this then None
             else
               (case add_child (node_store m1) pa this of
                  None \<Rightarrow> None
                | Some h \<Rightarrow> Some (this, m1\<lparr>node_store := h\<rparr>)))"

text \<open>\<^verbatim>\<open>model_t::model_t()\<close> on a store in which nothing has been allocated yet.\<close>

definition model_t_ctor :: model_t where
  "model_t_ctor =
     (let (r, m1) = alloc_node (model_node_init None None)
                      \<lparr>root_node = 0, all_nodes = [], owned_shapes = [],
                       node_store = Map.empty, shape_store = Map.empty, next_addr = 0\<rparr>
      in m1\<lparr>root_node := r, all_nodes := [r]\<rparr>)"

definition create_sphere :: "32 word \<Rightarrow> addr option \<Rightarrow> model_t \<Rightarrow> (addr \<times> model_t) option" where
  "create_sphere lvl parent0 m =
     (let pa = (case parent0 of None \<Rightarrow> root_node m | Some p \<Rightarrow> p);
          (s, m1) = alloc_shape (sphere_t lvl) m;
          m2 = m1\<lparr>owned_shapes := owned_shapes m1 @ [s]\<rparr>
      in case new_model_node (Some s) (Some pa) m2 of
           None \<Rightarrow> None
         | Some (node, m3) \<Rightarrow> Some (node, m3\<lparr>all_nodes := all_nodes m3 @ [node]\<rparr>))"

definition create_cylinder :: "32 word \<Rightarrow> addr option \<Rightarrow> model_t \<Rightarrow> (addr \<times> model_t) option" where
  "create_cylinder lvl parent0 m =
     (let pa = (case parent0 of None \<Rightarrow> root_node m | Some p \<Rightarrow> p);
          (s, m1) = alloc_shape (cylinder_t lvl) m;
          m2 = m1\<lparr>owned_shapes := owned_shapes m1 @ [s]\<rparr>
      in case new_model_node (Some s) (Some pa) m2 of
           None \<Rightarrow> None
         | Some (node, m3) \<Rightarrow> Some (node, m3\<lparr>all_nodes := all_nodes m3 @ [node]\<rparr>))"

text \<open>\<^verbatim>\<open>new box_t()\<close> takes the default level 0.\<close>

definition create_box :: "addr option \<Rightarrow> model_t \<Rightarrow> (addr \<times> model_t) option" where
  "create_box parent0 m =
     (let pa = (case parent0 of None \<Rightarrow> root_node m | Some p \<Rightarrow> p);
          (s, m1) = alloc_shape (box_t 0) m;
          m2 = m1\<lparr>owned_shapes := owned_shapes m1 @ [s]\<rparr>
      in case new_model_node (Some s) (Some pa) m2 of
           None \<Rightarrow> None
         | Some (node, m3) \<Rightarrow> Some (node, m3\<lparr>all_nodes := all_nodes m3 @ [node]\<rparr>))"

definition create_cone :: "32 word \<Rightarrow> addr option \<Rightarrow> model_t \<Rightarrow> (addr \<times> model_t) option" where
  "create_cone lvl parent0 m =
     (let pa = (case parent0 of None \<Rightarrow> root_node m | Some p \<Rightarrow> p);
          (s, m1) = alloc_shape (cone_t lvl) m;
          m2 = m1\<lparr>owned_shapes := owned_shapes m1 @ [s]\<rparr>
      in case new_model_node (Some s) (Some pa) m2 of
           None \<Rightarrow> None
         | Some (node, m3) \<Rightarrow> Some (node, m3\<lparr>all_nodes := all_nodes m3 @ [node]\<rparr>))"

text \<open>
  \<^verbatim>\<open>remove_node\<close>. The loop over \<^verbatim>\<open>to_remove\<close> erases every collected node
  other than \<^verbatim>\<open>node\<close> from \<^verbatim>\<open>all_nodes\<close>; \<^verbatim>\<open>delete node\<close> then releases the
  subtree. \<^verbatim>\<open>owned_shapes\<close> is not mentioned.
\<close>

definition remove_node :: "addr option \<Rightarrow> model_t \<Rightarrow> model_t option" where
  "remove_node node0 m =
     (case node0 of
        None \<Rightarrow> Some m
      | Some node \<Rightarrow>
          if node = root_node m then Some m
          else
            (case node_store m node of
               None \<Rightarrow> None
             | Some n \<Rightarrow>
                 (case (case parent n of
                          None \<Rightarrow> Some (node_store m)
                        | Some p \<Rightarrow> remove_child (node_store m) p node) of
                    None \<Rightarrow> None
                  | Some h1 \<Rightarrow>
                      (let an1 = removeAll node (all_nodes m)
                       in case collect h1 node of
                            None \<Rightarrow> None
                          | Some to_remove \<Rightarrow>
                              (let an2 = fold (\<lambda>x an. if x \<noteq> node then removeAll x an else an)
                                           to_remove an1
                               in case delete_node h1 node of
                                    None \<Rightarrow> None
                                  | Some h2 \<Rightarrow> Some (m\<lparr>all_nodes := an2, node_store := h2\<rparr>))))))"

text \<open>\<^verbatim>\<open>for (auto s : owned_shapes) delete s;\<close>\<close>

fun delete_shapes :: "shape_store \<Rightarrow> addr list \<Rightarrow> shape_store option" where
  "delete_shapes ss [] = Some ss"
| "delete_shapes ss (s # rest) =
     (case ss s of None \<Rightarrow> None | Some sh \<Rightarrow> delete_shapes (ss(s := None)) rest)"

text \<open>
  The four statements that the destructor and \<^verbatim>\<open>load_from_file\<close> (under
  \<^verbatim>\<open>// cleanup old\<close>) share: \<^verbatim>\<open>delete root\<close>, delete every owned shape, clear
  \<^verbatim>\<open>owned_shapes\<close>, clear \<^verbatim>\<open>all_nodes\<close>.
\<close>

definition cleanup :: "model_t \<Rightarrow> model_t option" where
  "cleanup m =
     (case delete_node (node_store m) (root_node m) of
        None \<Rightarrow> None
      | Some h1 \<Rightarrow>
          (case delete_shapes (shape_store m) (owned_shapes m) of
             None \<Rightarrow> None
           | Some ss1 \<Rightarrow>
               Some (m\<lparr>node_store := h1, shape_store := ss1, owned_shapes := [], all_nodes := []\<rparr>)))"

text \<open>\<^verbatim>\<open>model_t::~model_t()\<close>: what is left of the store afterwards.\<close>

definition model_t_dtor :: "model_t \<Rightarrow> model_t option" where
  "model_t_dtor m = cleanup m"


section \<open>Saving and loading (model.cpp)\<close>

text \<open>
  A file is a list of lines. The loop of \<^verbatim>\<open>load_from_file\<close> uses a line only through
  the extraction chain \<^verbatim>\<open>iss >> type >> parentIdx >> tx >> ... >> cb\<close>, so the file
  system holds for each line what the chain makes of it: the fifteen extracted values, or
  \<open>None\<close> where the extraction fails. What the chain makes of the characters of a line
  is \<open>parse_line\<close> below. \<^verbatim>\<open>save_to_file\<close> writes fifteen values per line, and
  the model takes it that they are read back as written.
\<close>

record save_fields =
  f_type :: int
  f_parentIdx :: int
  f_tx :: real
  f_ty :: real
  f_tz :: real
  f_rx :: real
  f_ry :: real
  f_rz :: real
  f_rw :: real
  f_sx :: real
  f_sy :: real
  f_sz :: real
  f_cr :: real
  f_cg :: real
  f_cb :: real

type_synonym line = "save_fields option"

text \<open>\<open>file_lines\<close>: the files that open for reading, with their lines;
  \<open>can_create\<close>: whether \<^verbatim>\<open>std::ofstream out(filename)\<close> opens.\<close>

record filesystem =
  file_lines :: "string \<rightharpoonup> line list"
  can_create :: "string \<Rightarrow> bool"

text \<open>The inner loop of \<^verbatim>\<open>save_to_file\<close>: the first \<open>j\<close> with
  \<^verbatim>\<open>nodes[j] == n->parent\<close>, or \<open>-1\<close>.\<close>

fun find_parentIdx :: "addr list \<Rightarrow> addr \<Rightarrow> nat \<Rightarrow> int" where
  "find_parentIdx [] p j = - 1"
| "find_parentIdx (x # xs) p j = (if x = p then int j else find_parentIdx xs p (Suc j))"

definition save_line :: "model_t \<Rightarrow> addr list \<Rightarrow> addr \<Rightarrow> save_fields option" where
  "save_line m nodes a =
     (case node_store m a of
        None \<Rightarrow> None
      | Some n \<Rightarrow>
          (let parentIdx = (case parent n of None \<Rightarrow> - 1 | Some p \<Rightarrow> find_parentIdx nodes p 0);
               t = col3 (translation n);
               line_of = (\<lambda>ty.
                 \<lparr>f_type = ty, f_parentIdx = parentIdx,
                  f_tx = vec4_x t, f_ty = vec4_y t, f_tz = vec4_z t,
                  f_rx = 0, f_ry = 0, f_rz = 0, f_rw = 1,
                  f_sx = vec4_x (col0 (scale n)), f_sy = vec4_y (col1 (scale n)),
                  f_sz = vec4_z (col2 (scale n)),
                  f_cr = vec4_x (color n), f_cg = vec4_y (color n), f_cb = vec4_z (color n)\<rparr>)
           in case shape n of
                None \<Rightarrow> Some (line_of (- 1))
              | Some s \<Rightarrow>
                  (case shape_store m s of
                     None \<Rightarrow> None
                   | Some sh \<Rightarrow> Some (line_of (ShapeType_int (shapetype sh))))))"

fun save_lines :: "model_t \<Rightarrow> addr list \<Rightarrow> addr list \<Rightarrow> line list option" where
  "save_lines m nodes [] = Some []"
| "save_lines m nodes (a # rest) =
     (case save_line m nodes a of
        None \<Rightarrow> None
      | Some l \<Rightarrow> (case save_lines m nodes rest of None \<Rightarrow> None | Some ls \<Rightarrow> Some (Some l # ls)))"

definition save_to_file :: "model_t \<Rightarrow> string \<Rightarrow> filesystem \<Rightarrow> (bool \<times> filesystem) option" where
  "save_to_file m filename fs =
     (if \<not> can_create fs filename then Some (False, fs)
      else
        (case collect (node_store m) (root_node m) of
           None \<Rightarrow> None
         | Some nodes \<Rightarrow>
             (case save_lines m nodes nodes of
                None \<Rightarrow> None
              | Some ls \<Rightarrow> Some (True, fs\<lparr>file_lines := (file_lines fs)(filename \<mapsto> ls)\<rparr>))))"

text \<open>The \<^verbatim>\<open>switch(type)\<close> of \<^verbatim>\<open>load_from_file\<close>; \<^verbatim>\<open>s\<close> stays null for any other
  value.\<close>

definition load_shape :: "int \<Rightarrow> model_t \<Rightarrow> addr option \<times> model_t" where
  "load_shape ty m =
     (if ty = 0 then (let (s, m1) = alloc_shape (sphere_t 1) m in (Some s, m1))
      else if ty = 1 then (let (s, m1) = alloc_shape (cylinder_t 1) m in (Some s, m1))
      else if ty = 2 then (let (s, m1) = alloc_shape (box_t 0) m in (Some s, m1))
      else if ty = 3 then (let (s, m1) = alloc_shape (cone_t 1) m in (Some s, m1))
      else (None, m))"

text \<open>One iteration of the \<^verbatim>\<open>while (std::getline(in, line))\<close> loop, on the graph and
  the local vector \<^verbatim>\<open>nodes\<close>.\<close>

definition load_line :: "line \<Rightarrow> model_t \<times> addr list \<Rightarrow> (model_t \<times> addr list) option" where
  "load_line lin st =
     (case lin of
        None \<Rightarrow> Some st
      | Some f \<Rightarrow>
          (let (m, nodes) = st;
               (s, m1) = load_shape (f_type f) m;
               m2 = (case s of None \<Rightarrow> m1 | Some sa \<Rightarrow> m1\<lparr>owned_shapes := owned_shapes m1 @ [sa]\<rparr>);
               pa = (if f_parentIdx f \<ge> 0 \<and> f_parentIdx f < int (length nodes)
                     then nodes ! nat (f_parentIdx f) else root_node m2)
           in case new_model_node s (Some pa) m2 of
                None \<Rightarrow> None
              | Some (node, m3) \<Rightarrow>
                  (case node_store m3 node of
                     None \<Rightarrow> None
                   | Some n \<Rightarrow>
                       Some (m3\<lparr>node_store := (node_store m3)(node \<mapsto>
                                   n\<lparr>translation := translate mat4_id (vec3 (f_tx f) (f_ty f) (f_tz f)),
                                     scale := scale_mat mat4_id (vec3 (f_sx f) (f_sy f) (f_sz f)),
                                     color := vec4 (f_cr f) (f_cg f) (f_cb f) 1\<rparr>),
                                all_nodes := all_nodes m3 @ [node]\<rparr>,
                             nodes @ [node]))))"

fun load_loop :: "line list \<Rightarrow> model_t \<times> addr list \<Rightarrow> (model_t \<times> addr list) option" where
  "load_loop [] st = Some st"
| "load_loop (lin # rest) st =
     (case load_line lin st of None \<Rightarrow> None | Some st' \<Rightarrow> load_loop rest st')"

definition load_from_file :: "model_t \<Rightarrow> string \<Rightarrow> filesystem \<Rightarrow> (bool \<times> model_t) option" where
  "load_from_file m filename fs =
     (case file_lines fs filename of
        None \<Rightarrow> Some (False, m)
      | Some lns \<Rightarrow>
          (case cleanup m of
             None \<Rightarrow> None
           | Some m1 \<Rightarrow>
               (let (r, m2) = alloc_node (model_node_init None None) m1;
                    m3 = m2\<lparr>root_node := r, all_nodes := all_nodes m2 @ [r]\<rparr>
                in case load_loop lns (m3, [r]) of
                     None \<Rightarrow> None
                   | Some (m4, nodes) \<Rightarrow> Some (True, m4))))"

subsection \<open>The extraction chain on the text of a line\<close>

text \<open>
  \<^verbatim>\<open>operator>>\<close> of \<^verbatim>\<open>std::istringstream\<close> for \<^verbatim>\<open>int\<close> and \<^verbatim>\<open>float\<close>
  (classic locale, decimal base), on the characters left in the stream; the result is the
  value and the characters that stay in the stream. White space before the value is
  skipped. An \<^verbatim>\<open>int\<close> is an optional sign and decimal digits; a \<^verbatim>\<open>float\<close> is an
  optional sign, digits with at most one decimal point, and an optional exponent
  (\<^verbatim>\<open>e\<close> or \<^verbatim>\<open>E\<close>, an optional sign, digits). The value ends at the first character
  that cannot continue it. The extraction fails when there is no digit, when an exponent
  letter is followed by no digit, when the \<^verbatim>\<open>int\<close> is outside 32 bits, and when the
  \<^verbatim>\<open>float\<close> rounds to infinity; once an extraction has failed, the rest of the chain
  fails. A \<^verbatim>\<open>float\<close> that is read is kept as the real number the text denotes.
\<close>

definition is_space :: "char \<Rightarrow> bool" where
  "is_space c = (c \<in> set [CHR '' '', CHR 0x09, CHR 0x0A, CHR 0x0B, CHR 0x0C, CHR 0x0D])"

definition is_digit :: "char \<Rightarrow> bool" where
  "is_digit c = (c \<in> set ''0123456789'')"

definition digit_value :: "char \<Rightarrow> int" where
  "digit_value c = of_char c - 48"

definition digits_value :: "string \<Rightarrow> int" where
  "digits_value ds = foldl (\<lambda>acc c. 10 * acc + digit_value c) 0 ds"

definition read_sign :: "string \<Rightarrow> bool \<times> string" where
  "read_sign s =
     (case s of
        [] \<Rightarrow> (False, [])
      | c # r \<Rightarrow> if c = CHR ''-'' then (True, r) else if c = CHR ''+'' then (False, r) else (False, s))"

definition extract_int :: "string \<Rightarrow> (int \<times> string) option" where
  "extract_int s =
     (let (neg, s1) = read_sign (dropWhile is_space s);
          ds = takeWhile is_digit s1;
          v = (if neg then - digits_value ds else digits_value ds)
      in if ds = [] \<or> v < - (2 ^ 31) \<or> 2 ^ 31 \<le> v then None
         else Some (v, dropWhile is_digit s1))"

definition read_exponent :: "string \<Rightarrow> (int \<times> string) option" where
  "read_exponent s =
     (case s of
        [] \<Rightarrow> Some (0, [])
      | c # r \<Rightarrow>
          if c = CHR ''e'' \<or> c = CHR ''E''
          then (let (neg, s1) = read_sign r;
                    ds = takeWhile is_digit s1
                in if ds = [] then None
                   else Some (if neg then - digits_value ds else digits_value ds,
                              dropWhile is_digit s1))
          else Some (0, s))"

text \<open>The least magnitude that rounds to infinity in \<^verbatim>\<open>float\<close>: half an ulp above
  \<^verbatim>\<open>FLT_MAX\<close>.\<close>

definition float_overflow :: real where
  "float_overflow = 2 ^ 128 - 2 ^ 103"

definition extract_float :: "string \<Rightarrow> (real \<times> string) option" where
  "extract_float s =
     (let (neg, s1) = read_sign (dropWhile is_space s);
          ip = takeWhile is_digit s1;
          r1 = dropWhile is_digit s1;
          (fp, r2) = (case r1 of
                        [] \<Rightarrow> ([], [])
                      | c # r \<Rightarrow> if c = CHR ''.'' then (takeWhile is_digit r, dropWhile is_digit r)
                                 else ([], r1));
          mant = of_int (digits_value ip) + of_int (digits_value fp) / 10 ^ length fp
      in if ip = [] \<and> fp = [] then None
         else
           (case read_exponent r2 of
              None \<Rightarrow> None
            | Some (e, rest) \<Rightarrow>
                (let a = (if 0 \<le> e then mant * 10 ^ nat e else mant / 10 ^ nat (- e))
                 in if float_overflow \<le> a then None
                    else Some (if neg then - a else a, rest))))"

text \<open>\<open>k\<close> extractions of a \<^verbatim>\<open>float\<close> in a row.\<close>

fun extract_floats :: "nat \<Rightarrow> string \<Rightarrow> (real list \<times> string) option" where
  "extract_floats 0 s = Some ([], s)"
| "extract_floats (Suc k) s =
     (case extract_float s of
        None \<Rightarrow> None
      | Some (v, r) \<Rightarrow>
          (case extract_floats k r of None \<Rightarrow> None | Some (vs, r') \<Rightarrow> Some (v # vs, r')))"

text \<open>
  \<^verbatim>\<open>iss >> type >> parentIdx >> tx >> ty >> tz >> rx >> ry >> rz >> rw >> sx >> sy >> sz >> cr >> cg >> cb\<close>
  on the text of a line: two \<^verbatim>\<open>int\<close>s, then thirteen \<^verbatim>\<open>float\<close>s. What is left in the
  stream after the fifteenth value is not looked at.
\<close>

definition parse_line :: "string \<Rightarrow> line" where
  "parse_line s =
     (case extract_int s of
        None \<Rightarrow> None
      | Some (ty, s1) \<Rightarrow>
          (case extract_int s1 of
             None \<Rightarrow> None
           | Some (parentIdx, s2) \<Rightarrow>
               (case extract_floats 13 s2 of
                  None \<Rightarrow> None
                | Some (vs, s3) \<Rightarrow>
                    Some \<lparr>f_type = ty, f_parentIdx = parentIdx,
                          f_tx = vs ! 0, f_ty = vs ! 1, f_tz = vs ! 2,
                          f_rx = vs ! 3, f_ry = vs ! 4, f_rz = vs ! 5, f_rw = vs ! 6,
                          f_sx = vs ! 7, f_sy = vs ! 8, f_sz = vs ! 9,
                          f_cr = vs ! 10, f_cg = vs ! 11, f_cb = vs ! 12\<rparr>)))"



section \<open>The editor's transform keys (main.cpp)\<close>

datatype TransformMode = TM_NONE | TM_ROT | TM_TRANS | TM_SCALE

text \<open>\<^verbatim>\<open>compute_shape_centroid\<close>: the mean of the shape's raw vertices, zero for a null
  node, a node without shape, or an empty vertex list.\<close>

definition compute_shape_centroid :: "model_t \<Rightarrow> addr option \<Rightarrow> vec3 option" where
  "compute_shape_centroid m node =
     (case node of
        None \<Rightarrow> Some (vec3 0 0 0)
      | Some a \<Rightarrow>
          (case node_store m a of
             None \<Rightarrow> None
           | Some n \<Rightarrow>
               (case shape n of
                  None \<Rightarrow> Some (vec3 0 0 0)
                | Some s \<Rightarrow>
                    (case shape_store m s of
                       None \<Rightarrow> None
                     | Some sh \<Rightarrow>
                         if vertices sh = [] then Some (vec3 0 0 0)
                         else Some (vec3_div
                                (fold (\<lambda>v centroid. vec3_add centroid (vec3 (vec4_x v) (vec4_y v) (vec4_z v)))
                                   (vertices sh) (vec3 0 0 0))
                                (real (length (vertices sh))))))))"

text \<open>An assignment to a member of \<^verbatim>\<open>*current_node\<close>.\<close>

definition update_node :: "addr \<Rightarrow> (model_node \<Rightarrow> model_node) \<Rightarrow> model_t \<Rightarrow> model_t option" where
  "update_node a f m =
     (case node_store m a of
        None \<Rightarrow> None
      | Some n \<Rightarrow> Some (m\<lparr>node_store := (node_store m)(a \<mapsto> f n)\<rparr>))"

text \<open>\<^verbatim>\<open>T2 * glm::rotate(glm::mat4(1.0f), ang, axis) * T1 * current_node->rotation\<close>\<close>

definition pivot_rotation :: "vec3 \<Rightarrow> real \<Rightarrow> vec3 \<Rightarrow> mat4 \<Rightarrow> mat4" where
  "pivot_rotation cen ang axis old =
     (let T1 = translate mat4_id (vec3_neg cen);
          T2 = translate mat4_id cen
      in mat_mul (mat_mul (mat_mul T2 (rotate_mat mat4_id ang axis)) T1) old)"

text \<open>\<^verbatim>\<open>T2 * glm::scale(glm::mat4(1.0f), sv) * T1 * current_node->scale\<close>\<close>

definition pivot_scale :: "vec3 \<Rightarrow> vec3 \<Rightarrow> mat4 \<Rightarrow> mat4" where
  "pivot_scale cen sv old =
     (let T1 = translate mat4_id (vec3_neg cen);
          T2 = translate mat4_id cen
      in mat_mul (mat_mul (mat_mul T2 (scale_mat mat4_id sv)) T1) old)"

text \<open>
  The two blocks of \<^verbatim>\<open>handle_key\<close> under \<^verbatim>\<open>// apply transforms\<close> (modelling mode)
  are the same code with different constants: the angle in degrees, the translation step
  and the scale factor. \<open>trans_mode\<close>, \<open>axis_mode\<close> and \<open>current_node\<close> are the
  program's globals of these names.
\<close>

definition apply_transform ::
  "real \<Rightarrow> real \<Rightarrow> real \<Rightarrow> TransformMode \<Rightarrow> int \<Rightarrow> addr option \<Rightarrow> model_t \<Rightarrow> model_t option" where
  "apply_transform deg d s trans_mode axis_mode current_node m =
     (case current_node of
        None \<Rightarrow> Some m
      | Some a \<Rightarrow>
          if trans_mode = TM_ROT then
            (let ang = radians deg
             in case compute_shape_centroid m current_node of
                  None \<Rightarrow> None
                | Some cen \<Rightarrow>
                    if axis_mode = 1
                    then update_node a (\<lambda>n. n\<lparr>rotation := pivot_rotation cen ang (vec3 1 0 0) (rotation n)\<rparr>) m
                    else if axis_mode = 2
                    then update_node a (\<lambda>n. n\<lparr>rotation := pivot_rotation cen ang (vec3 0 1 0) (rotation n)\<rparr>) m
                    else if axis_mode = 3
                    then update_node a (\<lambda>n. n\<lparr>rotation := pivot_rotation cen ang (vec3 0 0 1) (rotation n)\<rparr>) m
                    else Some m)
          else if trans_mode = TM_TRANS then
            (if axis_mode = 1
             then update_node a (\<lambda>n. n\<lparr>translation := translate (translation n) (vec3 d 0 0)\<rparr>) m
             else if axis_mode = 2
             then update_node a (\<lambda>n. n\<lparr>translation := translate (translation n) (vec3 0 d 0)\<rparr>) m
             else if axis_mode = 3
             then update_node a (\<lambda>n. n\<lparr>translation := translate (translation n) (vec3 0 0 d)\<rparr>) m
             else Some m)
          else if trans_mode = TM_SCALE then
            (let sv = vec3 (if axis_mode = 1 then s else 1)
                           (if axis_mode = 1 then 1 else if axis_mode = 2 then s else 1)
                           (if axis_mode = 1 then 1 else if axis_mode = 2 then 1
                            else if axis_mode = 3 then s else 1)
             in case compute_shape_centroid m current_node of
                  None \<Rightarrow> None
                | Some cen \<Rightarrow> update_node a (\<lambda>n. n\<lparr>scale := pivot_scale cen sv (scale n)\<rparr>) m)
          else Some m)"

text \<open>\<^verbatim>\<open>key == GLFW_KEY_EQUAL || key == GLFW_KEY_KP_ADD\<close>: +10 degrees, +0.1, \<open>\<times>\<close>1.1.\<close>

definition handle_key_EQUAL :: "TransformMode \<Rightarrow> int \<Rightarrow> addr option \<Rightarrow> model_t \<Rightarrow> model_t option" where
  "handle_key_EQUAL = apply_transform 10 (1 / 10) (11 / 10)"

text \<open>\<^verbatim>\<open>key == GLFW_KEY_MINUS || key == GLFW_KEY_KP_SUBTRACT\<close>: -10 degrees, -0.1, \<open>\<times>\<close>0.9.\<close>

definition handle_key_MINUS :: "TransformMode \<Rightarrow> int \<Rightarrow> addr option \<Rightarrow> model_t \<Rightarrow> model_t option" where
  "handle_key_MINUS = apply_transform (- 10) (- (1 / 10)) (9 / 10)"


section \<open>Well-formed graphs\<close>

text \<open>
  What the pointers of a graph look like is said with a tree of addresses: a node of the
  tree carries an address and the trees of its children, in order.
\<close>

datatype tree = Tree addr "tree list"

fun rt :: "tree \<Rightarrow> addr" where
  "rt (Tree a ts) = a"

fun preorder :: "tree \<Rightarrow> addr list" where
  "preorder (Tree a ts) = a # concat (map preorder ts)"

text \<open>\<open>shaped h p t\<close>: at the root of \<open>t\<close> the store has a node whose parent pointer is
  \<open>p\<close> and whose child list is the roots of the subtrees, and so on below.\<close>

fun shaped :: "node_store \<Rightarrow> addr option \<Rightarrow> tree \<Rightarrow> bool" where
  "shaped h p (Tree a ts) =
     (case h a of
        None \<Rightarrow> False
      | Some n \<Rightarrow> parent n = p \<and> children n = map rt ts \<and> (\<forall>t \<in> set ts. shaped h (Some a) t))"

text \<open>
  A graph is well formed when its live nodes are exactly the nodes of one tree below
  \<open>root_node\<close>, no node occurs twice, \<open>all_nodes\<close> lists exactly these nodes once each,
  every owned shape is live and listed once, every shape pointer of a node is an owned
  shape, and the allocator is ahead of every live object.
\<close>

definition wf_tree :: "model_t \<Rightarrow> tree \<Rightarrow> bool" where
  "wf_tree m t =
     (rt t = root_node m \<and> shaped (node_store m) None t \<and> distinct (preorder t)
      \<and> dom (node_store m) = set (preorder t)
      \<and> set (all_nodes m) = set (preorder t) \<and> distinct (all_nodes m)
      \<and> (\<forall>a \<in> dom (node_store m). a < next_addr m)
      \<and> (\<forall>s \<in> dom (shape_store m). s < next_addr m)
      \<and> distinct (owned_shapes m) \<and> set (owned_shapes m) \<subseteq> dom (shape_store m)
      \<and> (\<forall>a n s. node_store m a = Some n \<and> shape n = Some s \<longrightarrow> s \<in> set (owned_shapes m)))"

definition wf_model :: "model_t \<Rightarrow> bool" where
  "wf_model m = (\<exists>t. wf_tree m t)"

text \<open>The tree after a new leaf \<open>a\<close> has been appended to the children of \<open>p\<close>.\<close>

fun add_leaf :: "addr \<Rightarrow> addr \<Rightarrow> tree \<Rightarrow> tree" where
  "add_leaf p a (Tree b ts) =
     (if b = p then Tree b (ts @ [Tree a []]) else Tree b (map (add_leaf p a) ts))"

text \<open>The tree after the subtree below \<open>n\<close> has been cut off.\<close>

fun del_sub :: "addr \<Rightarrow> tree \<Rightarrow> tree" where
  "del_sub n (Tree b ts) = Tree b (map (del_sub n) (filter (\<lambda>t. rt t \<noteq> n) ts))"

text \<open>The nodes of the subtree below \<open>n\<close>, in pre-order (empty when \<open>n\<close> is not in the tree).\<close>

fun sub_nodes :: "addr \<Rightarrow> tree \<Rightarrow> addr list" where
  "sub_nodes n (Tree b ts) =
     (if b = n then preorder (Tree b ts) else concat (map (sub_nodes n) ts))"

text \<open>The nodes that can be reached from the root along child pointers.\<close>

definition child_rel :: "node_store \<Rightarrow> (addr \<times> addr) set" where
  "child_rel h = {(a, c). \<exists>n. h a = Some n \<and> c \<in> set (children n)}"

text \<open>The descendants of a node: what can be reached from it, the node itself excluded.\<close>

definition descendants :: "node_store \<Rightarrow> addr \<Rightarrow> addr set" where
  "descendants h n = (child_rel h)\<^sup>* `` {n} - {n}"

definition reachable_nodes :: "model_t \<Rightarrow> addr set" where
  "reachable_nodes m = (child_rel (node_store m))\<^sup>* `` {root_node m}"

text \<open>The graphs that a sequence of create, remove and load operations produces from a
  fresh graph. An operation without result (undefined behaviour) produces nothing.\<close>

inductive reachable_model :: "model_t \<Rightarrow> bool" where
  fresh: "reachable_model model_t_ctor"
| sphere: "reachable_model m \<Longrightarrow> create_sphere lvl p m = Some (n, m') \<Longrightarrow> reachable_model m'"
| cylinder: "reachable_model m \<Longrightarrow> create_cylinder lvl p m = Some (n, m') \<Longrightarrow> reachable_model m'"
| box: "reachable_model m \<Longrightarrow> create_box p m = Some (n, m') \<Longrightarrow> reachable_model m'"
| cone: "reachable_model m \<Longrightarrow> create_cone lvl p m = Some (n, m') \<Longrightarrow> reachable_model m'"
| remove: "reachable_model m \<Longrightarrow> remove_node node m = Some m' \<Longrightarrow> reachable_model m'"
| load: "reachable_model m \<Longrightarrow> load_from_file m filename fs = Some (b, m') \<Longrightarrow> reachable_model m'"

text \<open>An ancestor chain, root first: the first node has no parent, and each later node
  has the node before it as parent.\<close>

fun chain_from :: "node_store \<Rightarrow> addr \<Rightarrow> addr list \<Rightarrow> bool" where
  "chain_from h p [] = True"
| "chain_from h p (a # as) =
     (case h a of None \<Rightarrow> False | Some n \<Rightarrow> parent n = Some p \<and> chain_from h a as)"

definition ancestor_chain :: "node_store \<Rightarrow> addr list \<Rightarrow> bool" where
  "ancestor_chain h as =
     (case as of
        [] \<Rightarrow> False
      | r # rest \<Rightarrow> (case h r of None \<Rightarrow> False | Some n \<Rightarrow> parent n = None \<and> chain_from h r rest))"

text \<open>The local matrix of the node at an address.\<close>

definition local_at :: "node_store \<Rightarrow> addr \<Rightarrow> mat4" where
  "local_at h a = (case h a of None \<Rightarrow> mat4_id | Some n \<Rightarrow> local_matrix n)"

text \<open>The product of the local matrices along a chain, left to right.\<close>

definition chain_product :: "node_store \<Rightarrow> addr list \<Rightarrow> mat4" where
  "chain_product h as = foldl mat_mul (local_at h (hd as)) (map (local_at h) (tl as))"

text \<open>The arithmetic mean of the positions of a vertex list.\<close>

definition vertex_mean :: "vec4 list \<Rightarrow> vec3" where
  "vertex_mean vs =
     vec3 (sum_list (map vec4_x vs) / real (length vs))
          (sum_list (map vec4_y vs) / real (length vs))
          (sum_list (map vec4_z vs) / real (length vs))"

text \<open>The four create functions differ only in the shape they allocate; this is their
  common body, with the shape as a parameter.\<close>

definition create_with :: "shape_t \<Rightarrow> addr option \<Rightarrow> model_t \<Rightarrow> (addr \<times> model_t) option" where
  "create_with sh parent0 m =
     (let pa = (case parent0 of None \<Rightarrow> root_node m | Some p \<Rightarrow> p);
          (s, m1) = alloc_shape sh m;
          m2 = m1\<lparr>owned_shapes := owned_shapes m1 @ [s]\<rparr>
      in case new_model_node (Some s) (Some pa) m2 of
           None \<Rightarrow> None
         | Some (node, m3) \<Rightarrow> Some (node, m3\<lparr>all_nodes := all_nodes m3 @ [node]\<rparr>))"

text \<open>Example graphs: a fresh graph with one box under the root, and with a second box
  under the first.\<close>

definition one_box :: model_t where
  "one_box = snd (the (create_box None model_t_ctor))"

definition two_boxes :: model_t where
  "two_boxes = snd (the (create_box (Some 2) one_box))"

text \<open>Example files: a line that does not parse followed by the line of a box whose parent
  index is 7, and the file system that holds it as \<^verbatim>\<open>a.mod\<close>.\<close>

definition box_line :: "int \<Rightarrow> save_fields" where
  "box_line parentIdx =
     \<lparr>f_type = 2, f_parentIdx = parentIdx, f_tx = 0, f_ty = 0, f_tz = 0,
      f_rx = 0, f_ry = 0, f_rz = 0, f_rw = 1, f_sx = 1, f_sy = 1, f_sz = 1,
      f_cr = 1, f_cg = 1, f_cb = 1\<rparr>"

definition example_fs :: filesystem where
  "example_fs = \<lparr>file_lines = [''a.mod'' \<mapsto> [None, Some (box_line 7)]], can_create = (\<lambda>f. True)\<rparr>"

text \<open>The line \<^verbatim>\<open>save_to_file\<close> writes for a root with default transforms, and a file
  system without files in which every file can be created.\<close>

definition root_line :: save_fields where
  "root_line =
     \<lparr>f_type = - 1, f_parentIdx = - 1, f_tx = 0, f_ty = 0, f_tz = 0,
      f_rx = 0, f_ry = 0, f_rz = 0, f_rw = 1, f_sx = 1, f_sy = 1, f_sz = 1,
      f_cr = 1, f_cg = 1, f_cb = 1\<rparr>"

definition empty_fs :: filesystem where
  "empty_fs = \<lparr>file_lines = Map.empty, can_create = (\<lambda>f. True)\<rparr>"

text \<open>The fields of a line of text: its maximal runs of characters other than white
  space.\<close>

fun split_fields :: "string \<Rightarrow> string \<Rightarrow> string list" where
  "split_fields cur [] = (if cur = [] then [] else [cur])"
| "split_fields cur (c # cs) =
     (if is_space c then (if cur = [] then split_fields [] cs else cur # split_fields [] cs)
      else split_fields (cur @ [c]) cs)"

definition fields :: "string \<Rightarrow> string list" where
  "fields s = split_fields [] s"

text \<open>The file system that holds one file, with the given lines of text.\<close>

definition text_file :: "string \<Rightarrow> string list \<Rightarrow> filesystem" where
  "text_file filename txs =
     \<lparr>file_lines = [filename \<mapsto> map parse_line txs], can_create = (\<lambda>f. True)\<rparr>"


section \<open>Vertex counts\<close>

lemma length_concat_const:
  "(\<And>x. x \<in> set xs \<Longrightarrow> length (f x) = k) \<Longrightarrow> length (concat (map f xs)) = k * length xs"
  by (induction xs) auto

lemma level_cases:
  assumes "(l :: 32 word) \<le> 4"
  shows "l = 0 \<or> l = 1 \<or> l = 2 \<or> l = 3 \<or> l = 4"
proof -
  have "unat l \<le> 4" using assms by (simp add: word_le_nat_alt)
  then consider "unat l = 0" | "unat l = 1" | "unat l = 2" | "unat l = 3" | "unat l = 4" by arith
  then show ?thesis
  proof cases
    case 1 then show ?thesis by (simp add: unat_eq_0)
  next
    case 2
    then have "(word_of_nat (unat l) :: 32 word) = word_of_nat 1" by (simp only:)
    then show ?thesis by simp
  next
    case 3
    then have "(word_of_nat (unat l) :: 32 word) = word_of_nat 2" by (simp only:)
    then show ?thesis by simp
  next
    case 4
    then have "(word_of_nat (unat l) :: 32 word) = word_of_nat 3" by (simp only:)
    then show ?thesis by simp
  next
    case 5
    then have "(word_of_nat (unat l) :: 32 word) = word_of_nat 4" by (simp only:)
    then show ?thesis by simp
  qed
qed

lemma unat_stacks:
  "(l :: 32 word) \<le> 4 \<Longrightarrow>
   unat (if 6 * push_bit (unat l) (1 :: 32 word) < 6 then 6 else 6 * push_bit (unat l) (1 :: 32 word))
     = 6 * 2 ^ unat l"
  using level_cases[of l] by auto

lemma unat_slices:
  "(l :: 32 word) \<le> 4 \<Longrightarrow>
   unat (if 8 * push_bit (unat l) (1 :: 32 word) < 8 then 8 else 8 * push_bit (unat l) (1 :: 32 word))
     = 8 * 2 ^ unat l"
  using level_cases[of l] by auto



lemma length_sphere_rows:
  "length (concat (map (\<lambda>i. concat (map (\<lambda>j. sphere_quad a b i j) [0 ..< n])) [0 ..< m])) = 6 * n * m"
proof -
  have q: "\<And>i j. length (sphere_quad a b i j) = 6" by (simp add: sphere_quad_def Let_def)
  have inner: "\<And>i. length (concat (map (\<lambda>j. sphere_quad a b i j) [0 ..< n])) = 6 * n"
    using length_concat_const[of "[0 ..< n]" "\<lambda>j. sphere_quad a b _ j" 6] q by simp
  show ?thesis
    using length_concat_const[of "[0 ..< m]" "\<lambda>i. concat (map (\<lambda>j. sphere_quad a b i j) [0 ..< n])" "6 * n"] inner
    by simp
qed

lemma length_makeSphere: "l \<le> 4 \<Longrightarrow> length (makeSphere l) = 216 * 4 ^ unat l"
proof -
  assume l: "l \<le> 4"
  have p: "(4::nat) ^ unat l = 2 ^ unat l * 2 ^ unat l"
    by (simp add: power_mult_distrib[symmetric])
  have "length (makeSphere l) = 6 * (6 * 2 ^ unat l) * (6 * 2 ^ unat l)"
    unfolding makeSphere_def Let_def unat_stacks[OF l]
    by (rule length_sphere_rows)
  also have "\<dots> = 216 * 4 ^ unat l"
    by (simp add: p)
  finally show ?thesis .
qed


lemma length_makeCylinder: "l \<le> 4 \<Longrightarrow> length (makeCylinder l) = 96 * 2 ^ unat l"
proof -
  assume l: "l \<le> 4"
  have q: "\<And>a i. length (cylinder_side a i) = 6" "\<And>a i. length (cylinder_cap a i) = 6"
    by (simp_all add: cylinder_side_def cylinder_cap_def Let_def)
  have s: "\<And>a n. length (concat (map (cylinder_side a) [0 ..< n])) = 6 * n"
    using length_concat_const[of "[0 ..< _]" "cylinder_side _" 6] q by simp
  have c: "\<And>a n. length (concat (map (cylinder_cap a) [0 ..< n])) = 6 * n"
    using length_concat_const[of "[0 ..< _]" "cylinder_cap _" 6] q by simp
  have "length (makeCylinder l) = 6 * (8 * 2 ^ unat l) + 6 * (8 * 2 ^ unat l)"
    unfolding makeCylinder_def Let_def unat_slices[OF l]
    by (simp only: length_append s c)
  then show ?thesis by simp
qed

lemma length_makeCone: "l \<le> 4 \<Longrightarrow> length (makeCone l) = 48 * 2 ^ unat l"
proof -
  assume l: "l \<le> 4"
  have q: "\<And>a i. length (cone_slice a i) = 6"
    by (simp add: cone_slice_def Let_def)
  have s: "\<And>a n. length (concat (map (cone_slice a) [0 ..< n])) = 6 * n"
    using length_concat_const[of "[0 ..< _]" "cone_slice _" 6] q by simp
  have "length (makeCone l) = 6 * (8 * 2 ^ unat l)"
    unfolding makeCone_def Let_def unat_slices[OF l]
    by (simp only: s)
  then show ?thesis by simp
qed

lemma length_makeBox: "length makeBox = 36"
proof -
  have q: "\<And>f. length (box_face f) = 6" by (simp add: box_face_def Let_def)
  have "length makeBox = 6 * length [0 ..< (6::nat)]"
    unfolding makeBox_def using length_concat_const[of "[0 ..< 6]" box_face 6] q by blast
  then show ?thesis by simp
qed

lemma clamp_id: "l \<le> 4 \<Longrightarrow> clamp_level l = l"
  by (auto simp: clamp_level_def)

text \<open>
  Claim C4. For tessellation levels \<open>l < l' \<le> 4\<close> the sphere, the cylinder and the cone
  have strictly more vertices at level \<open>l'\<close> than at level \<open>l\<close>; a box has exactly 36
  vertices at every level.
\<close>

theorem vertex_count_monotone:
  "(l < l' \<and> l' \<le> 4 \<longrightarrow>
      length (vertices (sphere_t l)) < length (vertices (sphere_t l'))
    \<and> length (vertices (cylinder_t l)) < length (vertices (cylinder_t l'))
    \<and> length (vertices (cone_t l)) < length (vertices (cone_t l')))
   \<and> length (vertices (box_t l)) = 36"
proof -
  have box: "length (vertices (box_t l)) = 36"
    by (simp add: box_t_def Let_def length_makeBox)
  have mono: "l < l' \<Longrightarrow> l' \<le> 4 \<Longrightarrow> ?thesis"
  proof -
    assume a: "l < l'" "l' \<le> 4"
    then have l4: "l \<le> 4" by simp
    have u: "unat l < unat l'" using a by (simp add: word_less_nat_alt)
    have p2: "(2::nat) ^ unat l < 2 ^ unat l'" using u by simp
    have p4: "(4::nat) ^ unat l < 4 ^ unat l'" using u by simp
    show ?thesis using a l4 p2 p4 box
      by (simp add: sphere_t_def cylinder_t_def cone_t_def Let_def clamp_id
          length_makeSphere length_makeCylinder length_makeCone)
  qed
  show ?thesis using mono box by blast
qed

text \<open>Levels 0 and 1: 216 < 864, 96 < 192, 48 < 96.\<close>

theorem vertex_count_witness:
  "(0 :: 32 word) < 1 \<and> (1 :: 32 word) \<le> 4
   \<and> length (vertices (sphere_t 0)) < length (vertices (sphere_t 1))
   \<and> length (vertices (cylinder_t 0)) < length (vertices (cylinder_t 1))
   \<and> length (vertices (cone_t 0)) < length (vertices (cone_t 1))
   \<and> length (vertices (box_t 0)) = 36"
  using vertex_count_monotone[of 0 1] by simp


section \<open>Matrix algebra\<close>

lemma mat_vec_mul: "mat_vec (mat_mul a b) v = mat_vec a (mat_vec b v)"
  by (simp add: mat_vec_def mat_mul_def vec4_add_def vec4_smul_def algebra_simps)

lemma mat_mul_assoc: "mat_mul (mat_mul a b) c = mat_mul a (mat_mul b c)"
  by (simp add: mat_mul_def[of "mat_mul a b"] mat_mul_def[of a "mat_mul b c"] mat_vec_mul)
     (simp add: mat_mul_def)

lemma mat_vec_id: "mat_vec mat4_id v = v"
  by (cases v) (simp add: mat_vec_def mat4_id_def vec4_add_def vec4_smul_def)

lemma mat_mul_id_left: "mat_mul mat4_id a = a"
  by (cases a) (simp add: mat_mul_def mat_vec_id)

lemma translate_inverse:
  "mat_mul (translate mat4_id (vec3_neg c)) (translate mat4_id c) = mat4_id"
  "mat_mul (translate mat4_id c) (translate mat4_id (vec3_neg c)) = mat4_id"
  by (simp_all add: mat_mul_def mat_vec_def translate_def mat4_id_def vec4_add_def vec4_smul_def vec3_neg_def)

lemma normalize_axes:
  "normalize (vec3 1 0 0) = vec3 1 0 0"
  "normalize (vec3 0 1 0) = vec3 0 1 0"
  "normalize (vec3 0 0 1) = vec3 0 0 1"
  by (simp_all add: normalize_def vec3_smul_def)

lemma sc: "sin a * sin a + cos a * cos a = (1::real)" "cos a * cos a + sin a * sin a = (1::real)"
  using sin_cos_squared_add[of a] by (simp_all add: power2_eq_square add.commute)

lemma rotate_inverse:
  assumes "axis = vec3 1 0 0 \<or> axis = vec3 0 1 0 \<or> axis = vec3 0 0 1"
  shows "mat_mul (rotate_mat mat4_id (- a) axis) (rotate_mat mat4_id a axis) = mat4_id"
  using assms
  by (auto simp: rotate_mat_def Let_def normalize_axes mat_mul_def mat_vec_def mat4_id_def
      vec4_add_def vec4_smul_def vec3_smul_def sc)

lemma radians_minus: "radians (- d) = - radians d"
  by (simp add: radians_def)

lemma pivot_rotation_inverse:
  assumes "axis = vec3 1 0 0 \<or> axis = vec3 0 1 0 \<or> axis = vec3 0 0 1"
  shows "pivot_rotation cen (- a) axis (pivot_rotation cen a axis old) = old"
proof -
  let ?T1 = "translate mat4_id (vec3_neg cen)"
  let ?T2 = "translate mat4_id cen"
  let ?R = "rotate_mat mat4_id a axis"
  let ?R' = "rotate_mat mat4_id (- a) axis"
  have "pivot_rotation cen (- a) axis (pivot_rotation cen a axis old)
        = mat_mul ?T2 (mat_mul ?R' (mat_mul (mat_mul ?T1 ?T2) (mat_mul ?R (mat_mul ?T1 old))))"
    by (simp add: pivot_rotation_def Let_def mat_mul_assoc)
  also have "\<dots> = mat_mul ?T2 (mat_mul (mat_mul ?R' ?R) (mat_mul ?T1 old))"
    by (simp add: translate_inverse mat_mul_id_left mat_mul_assoc)
  also have "\<dots> = mat_mul (mat_mul ?T2 ?T1) old"
    by (simp add: rotate_inverse[OF assms] mat_mul_id_left mat_mul_assoc)
  also have "\<dots> = old"
    by (simp add: translate_inverse mat_mul_id_left)
  finally show ?thesis .
qed


section \<open>Local matrix\<close>

text \<open>
  Claim C3. \<^verbatim>\<open>local_matrix()\<close> is the product translation * rotation * scale in this
  order: applied to a vector, the scale acts first, then the rotation, then the translation.
\<close>

theorem local_matrix_is_T_R_S:
  "local_matrix n = mat_mul (mat_mul (translation n) (rotation n)) (scale n)
   \<and> mat_vec (local_matrix n) v
       = mat_vec (translation n) (mat_vec (rotation n) (mat_vec (scale n) v))"
  by (simp add: local_matrix_def mat_vec_mul)


section \<open>Rotation keys\<close>

lemma centroid_update_node:
  assumes "node_store m a = Some nd" "shape (f nd) = shape nd"
  shows "compute_shape_centroid (m\<lparr>node_store := (node_store m)(a \<mapsto> f nd)\<rparr>) (Some a)
         = compute_shape_centroid m (Some a)"
  using assms by (simp add: compute_shape_centroid_def split: option.splits)

lemma rotate_keys_generic:
  assumes nd: "node_store m a = Some nd"
    and cen: "compute_shape_centroid m (Some a) = Some cen"
    and ax: "axis_mode = 1 \<or> axis_mode = 2 \<or> axis_mode = 3"
  shows "\<exists>m2 nd2. handle_key_EQUAL TM_ROT axis_mode (Some a) m = Some m2
           \<and> node_store m2 a = Some nd2
           \<and> rotation nd2 = pivot_rotation cen (radians 10)
                (if axis_mode = 1 then vec3 1 0 0 else if axis_mode = 2 then vec3 0 1 0 else vec3 0 0 1)
                (rotation nd)
           \<and> compute_shape_centroid m2 (Some a) = Some cen
           \<and> handle_key_MINUS TM_ROT axis_mode (Some a) m2 = Some m"
proof -
  define axis where "axis = (if axis_mode = 1 then vec3 1 0 0 else if axis_mode = 2 then vec3 0 1 0 else vec3 0 0 1)"
  have axis: "axis = vec3 1 0 0 \<or> axis = vec3 0 1 0 \<or> axis = vec3 0 0 1"
    by (simp add: axis_def)
  define nd2 where "nd2 = nd\<lparr>rotation := pivot_rotation cen (radians 10) axis (rotation nd)\<rparr>"
  define m2 where "m2 = m\<lparr>node_store := (node_store m)(a \<mapsto> nd2)\<rparr>"
  have e: "handle_key_EQUAL TM_ROT axis_mode (Some a) m = Some m2"
    using nd cen ax
    by (auto simp: handle_key_EQUAL_def apply_transform_def update_node_def m2_def nd2_def axis_def Let_def)
  have n2: "node_store m2 a = Some nd2" by (simp add: m2_def)
  have c2: "compute_shape_centroid m2 (Some a) = Some cen"
    using centroid_update_node[OF nd, of "\<lambda>n. nd2"] cen by (simp add: m2_def nd2_def)
  have undo: "nd2\<lparr>rotation := pivot_rotation cen (radians (- 10)) axis (rotation nd2)\<rparr> = nd"
    by (simp add: nd2_def radians_minus pivot_rotation_inverse[OF axis])
  have "m2\<lparr>node_store := (node_store m2)(a \<mapsto> nd)\<rparr> = m"
    using nd by (simp add: m2_def map_upd_triv)
  then have "handle_key_MINUS TM_ROT axis_mode (Some a) m2 = Some m"
    using n2 c2 ax undo
    by (auto simp: handle_key_MINUS_def apply_transform_def update_node_def axis_def Let_def)
  then show ?thesis using e n2 c2 by (auto simp: nd2_def axis_def)
qed

lemma create_sphere_node:
  assumes "create_sphere lvl p m = Some (n, m1)"
  shows "\<exists>nd s. node_store m1 n = Some nd \<and> rotation nd = mat4_id \<and> shape nd = Some s
           \<and> shape_store m1 s = Some (sphere_t lvl)"
  using assms
  by (auto simp: create_sphere_def new_model_node_def alloc_shape_def alloc_node_def Let_def
      add_child_def model_node_init_def split: option.splits if_splits)


lemma fold_vertex_sum:
  "fold (\<lambda>v centroid. vec3_add centroid (vec3 (vec4_x v) (vec4_y v) (vec4_z v))) vs c
   = vec3 (vec3_x c + sum_list (map vec4_x vs)) (vec3_y c + sum_list (map vec4_y vs))
          (vec3_z c + sum_list (map vec4_z vs))"
  by (induction vs arbitrary: c) (simp_all add: vec3_add_def add.assoc)

lemma centroid_is_mean:
  assumes "node_store m a = Some nd" "shape nd = Some s" "shape_store m s = Some sh" "vertices sh \<noteq> []"
  shows "compute_shape_centroid m (Some a) = Some (vertex_mean (vertices sh))"
  using assms by (simp add: compute_shape_centroid_def fold_vertex_sum vertex_mean_def vec3_div_def)

lemma sphere_vertices_nonempty: "vertices (sphere_t lvl) \<noteq> []"
proof -
  have "clamp_level lvl \<le> 4" by (simp add: clamp_level_def not_less)
  then have "length (makeSphere (clamp_level lvl)) = 216 * 4 ^ unat (clamp_level lvl)"
    by (rule length_makeSphere)
  then have "length (vertices (sphere_t lvl)) > 0" by (simp add: sphere_t_def Let_def)
  then show ?thesis by blast
qed

lemma pivot_rotation_Y_entries:
  "mat_mul (mat_mul (mat_mul (translate mat4_id cen) (rotate_mat mat4_id a (vec3 0 1 0)))
                    (translate mat4_id (vec3_neg cen))) mat4_id
   = mat4 (vec4 (cos a) 0 (- sin a) 0) (vec4 0 1 0 0) (vec4 (sin a) 0 (cos a) 0)
          (vec4 (vec3_x cen - (cos a * vec3_x cen + sin a * vec3_z cen)) 0
                (vec3_z cen - (cos a * vec3_z cen - sin a * vec3_x cen)) 1)"
  by (cases cen)
     (simp add: rotate_mat_def Let_def normalize_axes mat_mul_def mat_vec_def mat4_id_def
      translate_def vec4_add_def vec4_smul_def vec3_smul_def vec3_neg_def algebra_simps)

lemma sin_ten_degrees: "sin (10 * pi / 180 :: real) \<noteq> 0"
proof -
  have "0 < sin (10 * pi / 180 :: real)" by (rule sin_gt_zero) (simp_all add: pi_gt_zero)
  then show ?thesis by simp
qed

text \<open>
  Claim C8. On a freshly created sphere node, in rotation mode with the Y axis selected, the
  \<^verbatim>\<open>+\<close> key followed by the \<^verbatim>\<open>-\<close> key restores the rotation matrix (and the whole
  graph). The statement spells the two updates out, with \<open>cen\<close> the arithmetic mean of the
  sphere's vertices and \<open>a\<close> ten degrees in radians:
  the \<^verbatim>\<open>+\<close> key sets the rotation to
  \<open>translate(cen) * rotate(a, Y) * translate(-cen) * rotation\<close>, which on the fresh node
  (rotation the identity) is the matrix with columns \<open>(cos a, 0, -sin a, 0)\<close>,
  \<open>(0, 1, 0, 0)\<close>, \<open>(sin a, 0, cos a, 0)\<close> and
  \<open>(cen - R cen, 1)\<close>, and differs from the rotation before the key; the centroid computed for
  the \<^verbatim>\<open>-\<close> key is the same \<open>cen\<close>; the \<^verbatim>\<open>-\<close> key sets the rotation to
  \<open>translate(cen) * rotate(-a, Y) * translate(-cen) * rotation\<close>, and that is the rotation
  before the two keys. The cancellation needs nothing of the pivot and the angle but that
  they are the same for both keys: for every pivot, angle and matrix the second update undoes
  the first. Scalars are the reals, so this is the exact restoration under real arithmetic;
  rounding of \<^verbatim>\<open>float\<close> operations is not modelled.
\<close>

theorem rotate_plus_minus_restores:
  assumes "create_sphere lvl p m = Some (n, m1)"
  shows "\<exists>cen a nd1 m2 nd2 m3 nd3.
           cen = vertex_mean (vertices (sphere_t lvl)) \<and> a = 10 * pi / 180
         \<and> node_store m1 n = Some nd1
         \<and> rotation nd1 = mat4_id
         \<and> compute_shape_centroid m1 (Some n) = Some cen
         \<and> handle_key_EQUAL TM_ROT 2 (Some n) m1 = Some m2
         \<and> node_store m2 n = Some nd2
         \<and> rotation nd2
             = mat_mul (mat_mul (mat_mul (translate mat4_id cen) (rotate_mat mat4_id a (vec3 0 1 0)))
                                (translate mat4_id (vec3_neg cen))) (rotation nd1)
         \<and> rotation nd2
             = mat4 (vec4 (cos a) 0 (- sin a) 0) (vec4 0 1 0 0) (vec4 (sin a) 0 (cos a) 0)
                 (vec4 (vec3_x cen - (cos a * vec3_x cen + sin a * vec3_z cen)) 0
                       (vec3_z cen - (cos a * vec3_z cen - sin a * vec3_x cen)) 1)
         \<and> rotation nd2 \<noteq> rotation nd1
         \<and> compute_shape_centroid m2 (Some n) = Some cen
         \<and> handle_key_MINUS TM_ROT 2 (Some n) m2 = Some m3
         \<and> node_store m3 n = Some nd3
         \<and> rotation nd3
             = mat_mul (mat_mul (mat_mul (translate mat4_id cen) (rotate_mat mat4_id (- a) (vec3 0 1 0)))
                                (translate mat4_id (vec3_neg cen))) (rotation nd2)
         \<and> rotation nd3 = rotation nd1
         \<and> m3 = m1
         \<and> (\<forall>c b old.
               mat_mul (mat_mul (mat_mul (translate mat4_id c) (rotate_mat mat4_id (- b) (vec3 0 1 0)))
                                (translate mat4_id (vec3_neg c)))
                 (mat_mul (mat_mul (mat_mul (translate mat4_id c) (rotate_mat mat4_id b (vec3 0 1 0)))
                                   (translate mat4_id (vec3_neg c))) old)
               = old)"
proof -
  define cen where "cen = vertex_mean (vertices (sphere_t lvl))"
  define a :: real where "a = 10 * pi / 180"
  have ra: "radians 10 = a" "radians (- 10) = - a" by (simp_all add: radians_def a_def)
  obtain nd1 s where nd1: "node_store m1 n = Some nd1" "shape nd1 = Some s"
      "shape_store m1 s = Some (sphere_t lvl)" and id: "rotation nd1 = mat4_id"
    using create_sphere_node[OF assms] by blast
  have cen: "compute_shape_centroid m1 (Some n) = Some cen"
    unfolding cen_def using centroid_is_mean[OF nd1 sphere_vertices_nonempty] .
  obtain m2 nd2 where k: "handle_key_EQUAL TM_ROT 2 (Some n) m1 = Some m2"
      "node_store m2 n = Some nd2"
      "rotation nd2 = pivot_rotation cen (radians 10) (vec3 0 1 0) (rotation nd1)"
      "compute_shape_centroid m2 (Some n) = Some cen"
      "handle_key_MINUS TM_ROT 2 (Some n) m2 = Some m1"
    using rotate_keys_generic[OF nd1(1) cen, of 2] by auto
  have r2: "rotation nd2
             = mat_mul (mat_mul (mat_mul (translate mat4_id cen) (rotate_mat mat4_id a (vec3 0 1 0)))
                                (translate mat4_id (vec3_neg cen))) (rotation nd1)"
    by (simp add: k(3) ra pivot_rotation_def Let_def)
  have e2: "rotation nd2
             = mat4 (vec4 (cos a) 0 (- sin a) 0) (vec4 0 1 0 0) (vec4 (sin a) 0 (cos a) 0)
                 (vec4 (vec3_x cen - (cos a * vec3_x cen + sin a * vec3_z cen)) 0
                       (vec3_z cen - (cos a * vec3_z cen - sin a * vec3_x cen)) 1)"
    unfolding r2 id by (rule pivot_rotation_Y_entries)
  have ne: "rotation nd2 \<noteq> rotation nd1"
    using sin_ten_degrees by (simp add: e2 id mat4_id_def a_def)
  have "rotation nd1 = pivot_rotation cen (radians (- 10)) (vec3 0 1 0) (rotation nd2)"
    by (simp add: k(3) radians_minus pivot_rotation_inverse)
  then have r3: "rotation nd1
             = mat_mul (mat_mul (mat_mul (translate mat4_id cen) (rotate_mat mat4_id (- a) (vec3 0 1 0)))
                                (translate mat4_id (vec3_neg cen))) (rotation nd2)"
    by (simp add: ra pivot_rotation_def Let_def)
  have g: "\<forall>c b old.
               mat_mul (mat_mul (mat_mul (translate mat4_id c) (rotate_mat mat4_id (- b) (vec3 0 1 0)))
                                (translate mat4_id (vec3_neg c)))
                 (mat_mul (mat_mul (mat_mul (translate mat4_id c) (rotate_mat mat4_id b (vec3 0 1 0)))
                                   (translate mat4_id (vec3_neg c))) old)
               = old"
    using pivot_rotation_inverse[of "vec3 0 1 0"] by (simp add: pivot_rotation_def Let_def)
  show ?thesis
    using nd1(1) id cen k(1,2,4,5) r2 e2 ne r3 cen_def a_def g by blast
qed

lemma create_sphere_fresh:
  "\<exists>n m1. create_sphere 1 (Some (root_node model_t_ctor)) model_t_ctor = Some (n, m1)"
  by (simp add: create_sphere_def model_t_ctor_def alloc_node_def alloc_shape_def new_model_node_def
      add_child_def Let_def)

text \<open>The sphere that key \<^verbatim>\<open>1\<close> creates under the root of a fresh graph.\<close>

theorem rotate_plus_minus_witness:
  "\<exists>n m1. create_sphere 1 (Some (root_node model_t_ctor)) model_t_ctor = Some (n, m1)
     \<and> (\<exists>cen a nd1 m2 nd2 m3 nd3.
           cen = vertex_mean (vertices (sphere_t 1)) \<and> a = 10 * pi / 180
         \<and> node_store m1 n = Some nd1
         \<and> rotation nd1 = mat4_id
         \<and> compute_shape_centroid m1 (Some n) = Some cen
         \<and> handle_key_EQUAL TM_ROT 2 (Some n) m1 = Some m2
         \<and> node_store m2 n = Some nd2
         \<and> rotation nd2
             = mat_mul (mat_mul (mat_mul (translate mat4_id cen) (rotate_mat mat4_id a (vec3 0 1 0)))
                                (translate mat4_id (vec3_neg cen))) (rotation nd1)
         \<and> rotation nd2
             = mat4 (vec4 (cos a) 0 (- sin a) 0) (vec4 0 1 0 0) (vec4 (sin a) 0 (cos a) 0)
                 (vec4 (vec3_x cen - (cos a * vec3_x cen + sin a * vec3_z cen)) 0
                       (vec3_z cen - (cos a * vec3_z cen - sin a * vec3_x cen)) 1)
         \<and> rotation nd2 \<noteq> rotation nd1
         \<and> compute_shape_centroid m2 (Some n) = Some cen
         \<and> handle_key_MINUS TM_ROT 2 (Some n) m2 = Some m3
         \<and> node_store m3 n = Some nd3
         \<and> rotation nd3
             = mat_mul (mat_mul (mat_mul (translate mat4_id cen) (rotate_mat mat4_id (- a) (vec3 0 1 0)))
                                (translate mat4_id (vec3_neg cen))) (rotation nd2)
         \<and> rotation nd3 = rotation nd1
         \<and> m3 = m1
         \<and> (\<forall>c b old.
               mat_mul (mat_mul (mat_mul (translate mat4_id c) (rotate_mat mat4_id (- b) (vec3 0 1 0)))
                                (translate mat4_id (vec3_neg c)))
                 (mat_mul (mat_mul (mat_mul (translate mat4_id c) (rotate_mat mat4_id b (vec3 0 1 0)))
                                   (translate mat4_id (vec3_neg c))) old)
               = old))"
proof -
  obtain n m1 where c: "create_sphere 1 (Some (root_node model_t_ctor)) model_t_ctor = Some (n, m1)"
    using create_sphere_fresh by blast
  show ?thesis using rotate_plus_minus_restores[OF c] c by blast
qed


section \<open>Traversal and deletion on well-formed stores\<close>

lemma collect_all_Nil: "collect_all h [] = Some []"
  by (subst collect_all.simps) simp

lemma collect_all_Cons:
  "collect_all h (c # rest) =
     (case h c of
        None \<Rightarrow> None
      | Some n \<Rightarrow>
          Option.bind (collect_all h (children n)) (\<lambda>sub.
          Option.bind (collect_all h rest) (\<lambda>out. Some (c # sub @ out))))"
  by (subst collect_all.simps) simp

lemma collect_all_split:
  "collect_all h (c # rest) =
     Option.bind (collect_all h [c]) (\<lambda>xs. Option.bind (collect_all h rest) (\<lambda>ys. Some (xs @ ys)))"
  by (simp add: collect_all_Cons[of h c rest] collect_all_Cons[of h c "[]"] collect_all_Nil
      split: option.splits Option.bind_splits)

lemma delete_all_Nil: "delete_all h [] = Some h"
  by (subst delete_all.simps) simp

lemma delete_all_Cons:
  "delete_all h (c # rest) =
     (case h c of
        None \<Rightarrow> None
      | Some n \<Rightarrow> Option.bind (delete_all h (children n)) (\<lambda>h1. delete_all (h1(c := None)) rest))"
  by (subst delete_all.simps) simp

lemma delete_all_split:
  "delete_all h (c # rest) = Option.bind (delete_all h [c]) (\<lambda>h1. delete_all h1 rest)"
  by (simp add: delete_all_Cons[of h c rest] delete_all_Cons[of h c "[]"] delete_all_Nil
      split: option.splits Option.bind_splits)

lemma shaped_cong:
  "(\<And>a. a \<in> set (preorder t) \<Longrightarrow> h a = h' a) \<Longrightarrow> shaped h p t = shaped h' p t"
proof (induction t arbitrary: p)
  case (Tree a ts)
  have "\<And>t. t \<in> set ts \<Longrightarrow> shaped h (Some a) t = shaped h' (Some a) t"
    using Tree by auto
  moreover have "h a = h' a" using Tree.prems by simp
  ultimately show ?case by (auto split: option.splits)
qed

lemma shaped_upd_other:
  "x \<notin> set (preorder t) \<Longrightarrow> shaped (h(x := v)) p t = shaped h p t"
  by (rule shaped_cong) auto

lemma shaped_restrict:
  "set (preorder t) \<inter> S = {} \<Longrightarrow> shaped (h |` (- S)) p t = shaped h p t"
  by (rule shaped_cong) (auto simp: restrict_map_def)

lemma collect_tree: "shaped h p t \<Longrightarrow> collect_all h [rt t] = Some (preorder t)"
proof (induction t arbitrary: p)
  case (Tree a ts)
  then obtain n where n: "h a = Some n" "children n = map rt ts"
      and sub: "\<And>t. t \<in> set ts \<Longrightarrow> shaped h (Some a) t"
    by (auto split: option.splits)
  have "set us \<subseteq> set ts \<Longrightarrow> collect_all h (map rt us) = Some (concat (map preorder us))" for us
  proof (induction us)
    case Nil
    show ?case by (simp add: collect_all_Nil)
  next
    case (Cons u us)
    then have "collect_all h [rt u] = Some (preorder u)"
      using Tree.IH[of u "Some a"] sub by auto
    with Cons show ?case by (simp add: collect_all_split[of h "rt u" "map rt us"])
  qed
  then have "collect_all h (map rt ts) = Some (concat (map preorder ts))" by simp
  with n show ?case by (simp add: collect_all_Cons collect_all_Nil)
qed

lemma restrict_upd_None: "(h |` (- S))(a := None) = h |` (- insert a S)"
  by (rule ext) (simp add: restrict_map_def)

lemma restrict_restrict_compl: "(h |` (- S)) |` (- T) = h |` (- (S \<union> T))"
  by (rule ext) (simp add: restrict_map_def)

lemma delete_tree:
  "shaped h p t \<Longrightarrow> distinct (preorder t) \<Longrightarrow>
   delete_all h [rt t] = Some (h |` (- set (preorder t)))"
proof (induction t arbitrary: h p)
  case (Tree a ts)
  then obtain n where n: "h a = Some n" "children n = map rt ts"
      and sub: "\<And>t. t \<in> set ts \<Longrightarrow> shaped h (Some a) t"
    by (auto split: option.splits)
  have d: "distinct (concat (map preorder ts))" and a: "a \<notin> set (concat (map preorder ts))"
    using Tree.prems(2) by auto
  have forest: "set us \<subseteq> set ts \<Longrightarrow> distinct (concat (map preorder us)) \<Longrightarrow>
        (\<And>u. u \<in> set us \<Longrightarrow> shaped g (Some a) u) \<Longrightarrow>
        delete_all g (map rt us) = Some (g |` (- set (concat (map preorder us))))" for us g
  proof (induction us arbitrary: g)
    case Nil
    show ?case by (simp add: delete_all_Nil restrict_map_def)
  next
    case (Cons u us)
    have u: "delete_all g [rt u] = Some (g |` (- set (preorder u)))"
      using Tree.IH[of u g "Some a"] Cons.prems by auto
    have disj: "\<And>v. v \<in> set us \<Longrightarrow> set (preorder v) \<inter> set (preorder u) = {}"
      using Cons.prems(2) by auto
    have "delete_all (g |` (- set (preorder u))) (map rt us)
          = Some ((g |` (- set (preorder u))) |` (- set (concat (map preorder us))))"
      using Cons.prems disj by (intro Cons.IH) (auto simp: shaped_restrict)
    then show ?case
      by (simp add: delete_all_split[of g "rt u" "map rt us"] u restrict_restrict_compl)
  qed
  define S where "S = set (concat (map preorder ts))"
  have "delete_all h (map rt ts) = Some (h |` (- S))"
    unfolding S_def using forest[of ts h] d sub by simp
  with n have "delete_all h [rt (Tree a ts)] = Some ((h |` (- S))(a := None))"
    by (simp add: delete_all_Cons delete_all_Nil)
  moreover have "set (preorder (Tree a ts)) = insert a S"
    by (simp add: S_def)
  ultimately show ?case by (simp only: restrict_upd_None)
qed


section \<open>Attaching a new node\<close>

lemma shaped_struct_cong:
  "(\<And>a. a \<in> set (preorder t) \<Longrightarrow>
      map_option (\<lambda>n. (parent n, children n)) (h a) = map_option (\<lambda>n. (parent n, children n)) (h' a))
   \<Longrightarrow> shaped h p t = shaped h' p t"
proof (induction t arbitrary: p)
  case (Tree a ts)
  have "\<And>t. t \<in> set ts \<Longrightarrow> shaped h (Some a) t = shaped h' (Some a) t"
    using Tree by auto
  moreover have "map_option (\<lambda>n. (parent n, children n)) (h a)
                 = map_option (\<lambda>n. (parent n, children n)) (h' a)"
    using Tree.prems by simp
  ultimately show ?case by (cases "h a"; cases "h' a") auto
qed

lemma distinct_subtree:
  "distinct (preorder (Tree b ts)) \<Longrightarrow> u \<in> set ts \<Longrightarrow>
   distinct (preorder u) \<and> b \<notin> set (preorder u)"
  by (induction ts) auto

lemma rt_add_leaf: "rt (add_leaf p a t) = rt t"
  by (cases t) simp

lemma add_leaf_notin: "p \<notin> set (preorder t) \<Longrightarrow> add_leaf p a t = t"
  by (induction t) (auto simp: map_idI)

lemma set_add_leaf_subset: "set (preorder (add_leaf p a t)) \<subseteq> insert a (set (preorder t))"
  by (induction t) auto

lemma set_add_leaf_mono: "set (preorder t) \<subseteq> set (preorder (add_leaf p a t))"
  by (induction t) auto

lemma add_leaf_mem: "p \<in> set (preorder t) \<Longrightarrow> a \<in> set (preorder (add_leaf p a t))"
  by (induction t) auto

lemma set_add_leaf:
  "p \<in> set (preorder t) \<Longrightarrow> set (preorder (add_leaf p a t)) = insert a (set (preorder t))"
  using set_add_leaf_subset[of p a t] set_add_leaf_mono[of t p a] add_leaf_mem[of p t a] by blast

lemma distinct_add_leaf:
  "distinct (preorder t) \<Longrightarrow> a \<notin> set (preorder t) \<Longrightarrow> distinct (preorder (add_leaf p a t))"
proof (induction t)
  case (Tree b ts)
  show ?case
  proof (cases "b = p")
    case True
    then show ?thesis using Tree.prems by auto
  next
    case False
    have forest: "set us \<subseteq> set ts \<Longrightarrow> distinct (concat (map preorder us)) \<Longrightarrow>
          a \<notin> set (concat (map preorder us)) \<Longrightarrow>
          distinct (concat (map preorder (map (add_leaf p a) us)))" for us
    proof (induction us)
      case Nil
      show ?case by simp
    next
      case (Cons u us)
      have du: "distinct (preorder (add_leaf p a u))" using Cons.prems Tree.IH[of u] by auto
      have dr: "distinct (concat (map preorder (map (add_leaf p a) us)))"
        using Cons by auto
      have disj: "set (preorder (add_leaf p a u)) \<inter> set (concat (map preorder (map (add_leaf p a) us))) = {}"
      proof (cases "p \<in> set (preorder u)")
        case True
        then have "\<And>v. v \<in> set us \<Longrightarrow> p \<notin> set (preorder v)" using Cons.prems(2) by auto
        then have "map (add_leaf p a) us = us" by (simp add: add_leaf_notin map_idI)
        then have eq: "concat (map preorder (map (add_leaf p a) us)) = concat (map preorder us)"
          by (simp only:)
        have "set (preorder (add_leaf p a u)) \<subseteq> insert a (set (preorder u))"
          by (rule set_add_leaf_subset)
        moreover have "a \<notin> set (concat (map preorder us))" using Cons.prems(3) by simp
        moreover have "set (preorder u) \<inter> set (concat (map preorder us)) = {}"
          using Cons.prems(2) by simp
        ultimately show ?thesis unfolding eq by blast
      next
        case False
        then have eq: "add_leaf p a u = u" by (rule add_leaf_notin)
        have "set (concat (map preorder (map (add_leaf p a) us)))
                       \<subseteq> insert a (set (concat (map preorder us)))"
          using set_add_leaf_subset[of p a] by fastforce
        moreover have "a \<notin> set (preorder u)" using Cons.prems(3) by simp
        moreover have "set (preorder u) \<inter> set (concat (map preorder us)) = {}"
          using Cons.prems(2) by simp
        ultimately show ?thesis unfolding eq by blast
      qed
      show ?case using du dr disj by simp
    qed
    have "b \<notin> set (concat (map preorder (map (add_leaf p a) ts)))"
    proof -
      have "set (concat (map preorder (map (add_leaf p a) ts)))
                       \<subseteq> insert a (set (concat (map preorder ts)))"
        using set_add_leaf_subset[of p a] by fastforce
      then show ?thesis using Tree.prems by auto
    qed
    then show ?thesis using False forest[of ts] Tree.prems by simp
  qed
qed

lemma shaped_add_leaf:
  assumes "shaped h q t" "distinct (preorder t)" "a \<notin> set (preorder t)" "p \<in> set (preorder t)"
    "h p = Some pn" "parent leaf = Some p" "children leaf = []"
  shows "shaped (h(p \<mapsto> pn\<lparr>children := children pn @ [a]\<rparr>, a \<mapsto> leaf)) q (add_leaf p a t)"
  using assms(1-4)
proof (induction t arbitrary: q)
  case (Tree b ts)
  let ?h = "h(p \<mapsto> pn\<lparr>children := children pn @ [a]\<rparr>, a \<mapsto> leaf)"
  from Tree.prems obtain n where n: "h b = Some n" "parent n = q" "children n = map rt ts"
      and sub: "\<And>t. t \<in> set ts \<Longrightarrow> shaped h (Some b) t"
    by (auto split: option.splits)
  have ab: "a \<noteq> b" using Tree.prems by auto
  show ?case
  proof (cases "b = p")
    case True
    have "shaped ?h (Some b) u" if "u \<in> set ts" for u
    proof -
      have "\<And>x. x \<in> set (preorder u) \<Longrightarrow> ?h x = h x"
        using that Tree.prems True by auto
      then have "shaped ?h (Some b) u = shaped h (Some b) u" by (intro shaped_cong) simp
      then show ?thesis using sub that by simp
    qed
    then have subs: "\<forall>u \<in> set ts. shaped ?h (Some p) u" using True by simp
    have hp: "?h p = Some (pn\<lparr>children := children pn @ [a]\<rparr>)" using ab True by simp
    have ha: "?h a = Some leaf" by simp
    have pn: "pn = n" using n(1) assms(5) True by simp
    have leaf: "shaped ?h (Some p) (Tree a [])"
      using assms(6,7) by (simp only: shaped.simps ha option.case) simp
    have "shaped ?h q (Tree p (ts @ [Tree a []]))
          = (parent (pn\<lparr>children := children pn @ [a]\<rparr>) = q
             \<and> children (pn\<lparr>children := children pn @ [a]\<rparr>) = map rt (ts @ [Tree a []])
             \<and> (\<forall>t \<in> set (ts @ [Tree a []]). shaped ?h (Some p) t))"
      by (simp only: shaped.simps hp option.case)
    then have "shaped ?h q (Tree p (ts @ [Tree a []]))"
      using subs leaf n(2,3) pn by simp
    moreover have "add_leaf p a (Tree b ts) = Tree p (ts @ [Tree a []])" using True by simp
    ultimately show ?thesis by (simp only:)
  next
    case False
    have "shaped ?h (Some b) (add_leaf p a u)" if "u \<in> set ts" for u
    proof (cases "p \<in> set (preorder u)")
      case True
      have "distinct (preorder u)" "a \<notin> set (preorder u)"
        using distinct_subtree[OF Tree.prems(2) that] Tree.prems(3) that by auto
      then show ?thesis using Tree.IH[OF that sub[OF that] _ _ True] by blast
    next
      case False
      have "\<And>x. x \<in> set (preorder u) \<Longrightarrow> ?h x = h x"
        using that Tree.prems False by auto
      then have "shaped ?h (Some b) u = shaped h (Some b) u" by (intro shaped_cong) simp
      then show ?thesis using sub that False by (simp add: add_leaf_notin)
    qed
    then have subs: "\<forall>u \<in> set ts. shaped ?h (Some b) (add_leaf p a u)" by simp
    have hb: "?h b = Some n" using ab False n(1) by simp
    have "shaped ?h q (Tree b (map (add_leaf p a) ts))
          = (parent n = q \<and> children n = map rt (map (add_leaf p a) ts)
             \<and> (\<forall>t \<in> set (map (add_leaf p a) ts). shaped ?h (Some b) t))"
      by (simp only: shaped.simps hb option.case)
    then have "shaped ?h q (Tree b (map (add_leaf p a) ts))"
      using subs n(2,3) by (simp add: rt_add_leaf comp_def)
    moreover have "add_leaf p a (Tree b ts) = Tree b (map (add_leaf p a) ts)" using False by simp
    ultimately show ?thesis by (simp only:)
  qed
qed

lemma create_with_eqs:
  "create_sphere lvl p m = create_with (sphere_t lvl) p m"
  "create_cylinder lvl p m = create_with (cylinder_t lvl) p m"
  "create_box p m = create_with (box_t 0) p m"
  "create_cone lvl p m = create_with (cone_t lvl) p m"
  by (simp_all add: create_sphere_def create_cylinder_def create_box_def create_cone_def create_with_def)

lemma wf_tree_fresh:
  assumes "wf_tree m t"
  shows "next_addr m \<notin> dom (node_store m)" "next_addr m \<notin> set (preorder t)"
    "next_addr m \<notin> dom (shape_store m)" "next_addr m \<notin> set (owned_shapes m)"
    "next_addr m \<notin> set (all_nodes m)"
proof -
  have a: "\<forall>a \<in> dom (node_store m). a < next_addr m" "\<forall>s \<in> dom (shape_store m). s < next_addr m"
    "dom (node_store m) = set (preorder t)" "set (all_nodes m) = set (preorder t)"
    "set (owned_shapes m) \<subseteq> dom (shape_store m)"
    using assms unfolding wf_tree_def by blast+
  show n: "next_addr m \<notin> dom (node_store m)" using a(1) by (meson less_irrefl)
  show "next_addr m \<notin> set (preorder t)" using n a(3) by simp
  show s: "next_addr m \<notin> dom (shape_store m)" using a(2) by (meson less_irrefl)
  show "next_addr m \<notin> set (owned_shapes m)" using s a(5) by blast
  show "next_addr m \<notin> set (all_nodes m)" using n a(3,4) by simp
qed

lemma new_model_node_result:
  assumes "node_store m pa = Some pn" "pa \<noteq> next_addr m"
  shows "new_model_node s (Some pa) m =
           Some (next_addr m,
                 m\<lparr>node_store := (node_store m)(pa \<mapsto> pn\<lparr>children := children pn @ [next_addr m]\<rparr>,
                                    next_addr m \<mapsto> model_node_init s (Some pa)),
                   next_addr := Suc (next_addr m)\<rparr>)"
proof -
  have "(node_store m)(next_addr m \<mapsto> model_node_init s (Some pa),
              pa \<mapsto> pn\<lparr>children := children pn @ [next_addr m]\<rparr>,
              next_addr m \<mapsto> (model_node_init s (Some pa))\<lparr>parent := Some pa\<rparr>)
        = (node_store m)(pa \<mapsto> pn\<lparr>children := children pn @ [next_addr m]\<rparr>,
              next_addr m \<mapsto> model_node_init s (Some pa))"
    using assms(2) by (auto simp: model_node_init_def fun_upd_def)
  then show ?thesis
    using assms by (simp add: new_model_node_def alloc_node_def add_child_def Let_def)
qed

lemma attach_wf:
  assumes wf: "wf_tree m t" and pa: "pa \<in> set (preorder t)"
    and sh: "\<And>sa. s = Some sa \<Longrightarrow> sa \<in> set (owned_shapes m)"
    and pn: "node_store m pa = Some pn"
  shows "wf_tree (m\<lparr>node_store := (node_store m)(pa \<mapsto> pn\<lparr>children := children pn @ [next_addr m]\<rparr>,
                                    next_addr m \<mapsto> model_node_init s (Some pa)),
                   next_addr := Suc (next_addr m),
                   all_nodes := all_nodes m @ [next_addr m]\<rparr>)
            (add_leaf pa (next_addr m) t)"
proof -
  let ?a = "next_addr m"
  let ?h = "(node_store m)(pa \<mapsto> pn\<lparr>children := children pn @ [?a]\<rparr>, ?a \<mapsto> model_node_init s (Some pa))"
  note fr = wf_tree_fresh[OF wf]
  have w: "rt t = root_node m" "shaped (node_store m) None t" "distinct (preorder t)"
    "dom (node_store m) = set (preorder t)" "set (all_nodes m) = set (preorder t)"
    "distinct (all_nodes m)" "\<forall>a \<in> dom (node_store m). a < next_addr m"
    "\<forall>s \<in> dom (shape_store m). s < next_addr m" "distinct (owned_shapes m)"
    "set (owned_shapes m) \<subseteq> dom (shape_store m)"
    "\<forall>a n s. node_store m a = Some n \<and> shape n = Some s \<longrightarrow> s \<in> set (owned_shapes m)"
    using wf unfolding wf_tree_def by blast+
  have s1: "shaped ?h None (add_leaf pa ?a t)"
    by (rule shaped_add_leaf[OF w(2,3) fr(2) pa pn]) (simp_all add: model_node_init_def)
  have s2: "distinct (preorder (add_leaf pa ?a t))"
    by (rule distinct_add_leaf[OF w(3) fr(2)])
  have s3: "set (preorder (add_leaf pa ?a t)) = insert ?a (set (preorder t))"
    by (rule set_add_leaf[OF pa])
  have s4: "dom ?h = insert ?a (set (preorder t))"
    using w(4) pa by auto
  have s5: "\<forall>a n s'. ?h a = Some n \<and> shape n = Some s' \<longrightarrow> s' \<in> set (owned_shapes m)"
    using w(11) sh pn by (auto simp: model_node_init_def)
  have s6: "\<forall>a \<in> dom ?h. a < Suc ?a" using w(7) pn by (auto simp: less_Suc_eq)
  have s7: "\<forall>s \<in> dom (shape_store m). s < Suc ?a" using w(8) by (auto simp: less_Suc_eq)
  show ?thesis
    unfolding wf_tree_def
    using s1 s2 s3 s4 s5 s6 s7 w(1,5,6,9,10) fr(5)
    by (simp add: rt_add_leaf del: fun_upd_apply)
qed

lemma wf_tree_alloc_shape:
  assumes wf: "wf_tree m t"
  shows "wf_tree (m\<lparr>shape_store := (shape_store m)(next_addr m \<mapsto> sh),
                    next_addr := Suc (next_addr m),
                    owned_shapes := owned_shapes m @ [next_addr m]\<rparr>) t"
proof -
  note fr = wf_tree_fresh[OF wf]
  have w: "rt t = root_node m" "shaped (node_store m) None t" "distinct (preorder t)"
    "dom (node_store m) = set (preorder t)" "set (all_nodes m) = set (preorder t)"
    "distinct (all_nodes m)" "\<forall>a \<in> dom (node_store m). a < next_addr m"
    "\<forall>s \<in> dom (shape_store m). s < next_addr m" "distinct (owned_shapes m)"
    "set (owned_shapes m) \<subseteq> dom (shape_store m)"
    "\<forall>a n s. node_store m a = Some n \<and> shape n = Some s \<longrightarrow> s \<in> set (owned_shapes m)"
    using wf unfolding wf_tree_def by blast+
  have s6: "\<forall>a \<in> dom (node_store m). a < Suc (next_addr m)" using w(7) by (auto simp: less_Suc_eq)
  have s7: "\<forall>s \<in> dom ((shape_store m)(next_addr m \<mapsto> sh)). s < Suc (next_addr m)"
    using w(8) by (auto simp: less_Suc_eq)
  have s8: "set (owned_shapes m) \<subseteq> insert (next_addr m) (dom (shape_store m))" using w(10) by blast
  show ?thesis
    unfolding wf_tree_def
    using w(1-6,9,11) s6 s7 s8 fr(4)
    by (simp del: fun_upd_apply)
qed

lemma create_with_wf:
  assumes wf: "wf_tree m t" and pa: "pa \<in> set (preorder t)"
    and p: "p = Some pa \<or> (p = None \<and> pa = root_node m)"
  shows "\<exists>m'. create_with sh p m = Some (Suc (next_addr m), m')
           \<and> wf_tree m' (add_leaf pa (Suc (next_addr m)) t)
           \<and> root_node m' = root_node m
           \<and> all_nodes m' = all_nodes m @ [Suc (next_addr m)]
           \<and> owned_shapes m' = owned_shapes m @ [next_addr m]
           \<and> shape_store m' = (shape_store m)(next_addr m \<mapsto> sh)
           \<and> next_addr m' = Suc (Suc (next_addr m))
           \<and> (\<exists>pn. node_store m pa = Some pn
                 \<and> node_store m' = (node_store m)(pa \<mapsto> pn\<lparr>children := children pn @ [Suc (next_addr m)]\<rparr>,
                      Suc (next_addr m) \<mapsto> model_node_init (Some (next_addr m)) (Some pa)))"
proof -
  let ?m2 = "m\<lparr>shape_store := (shape_store m)(next_addr m \<mapsto> sh),
                    next_addr := Suc (next_addr m),
                    owned_shapes := owned_shapes m @ [next_addr m]\<rparr>"
  have wf2: "wf_tree ?m2 t" by (rule wf_tree_alloc_shape[OF wf])
  have "dom (node_store m) = set (preorder t)" using wf unfolding wf_tree_def by blast
  then obtain pn where pn: "node_store m pa = Some pn" using pa by auto
  have lt: "pa < next_addr m" using wf pn unfolding wf_tree_def by blast
  have pn2: "node_store ?m2 pa = Some pn" using pn by simp
  have ne: "pa \<noteq> next_addr ?m2" using lt by simp
  have w3: "wf_tree (?m2\<lparr>node_store := (node_store ?m2)(pa \<mapsto> pn\<lparr>children := children pn @ [next_addr ?m2]\<rparr>,
                                    next_addr ?m2 \<mapsto> model_node_init (Some (next_addr m)) (Some pa)),
                   next_addr := Suc (next_addr ?m2),
                   all_nodes := all_nodes ?m2 @ [next_addr ?m2]\<rparr>)
            (add_leaf pa (next_addr ?m2) t)"
    by (rule attach_wf[OF wf2 pa _ pn2]) simp
  have pa_eq: "(case p of None \<Rightarrow> root_node m | Some q \<Rightarrow> q) = pa" using p by auto
  have c: "create_with sh p m = Some (Suc (next_addr m),
          ?m2\<lparr>node_store := (node_store ?m2)(pa \<mapsto> pn\<lparr>children := children pn @ [next_addr ?m2]\<rparr>,
                                    next_addr ?m2 \<mapsto> model_node_init (Some (next_addr m)) (Some pa)),
                   next_addr := Suc (next_addr ?m2),
                   all_nodes := all_nodes ?m2 @ [next_addr ?m2]\<rparr>)"
    unfolding create_with_def pa_eq
    using new_model_node_result[of ?m2 pa pn "Some (next_addr m)", OF pn2 ne]
    by (simp add: alloc_shape_def Let_def)
  show ?thesis using c w3 pn by simp
qed

lemma create_with_live:
  assumes wf: "wf_tree m t" and c: "create_with sh (Some pa) m = Some (n, m')"
  shows "pa \<in> set (preorder t)"
proof -
  have d: "dom (node_store m) = set (preorder t)" using wf unfolding wf_tree_def by blast
  have "node_store m pa \<noteq> None"
    using c
    by (auto simp: create_with_def alloc_shape_def new_model_node_def alloc_node_def add_child_def
        Let_def split: option.splits if_splits)
  then show ?thesis using d by auto
qed

lemma wf_tree_root: "wf_tree m t \<Longrightarrow> root_node m \<in> set (preorder t)"
  unfolding wf_tree_def by (cases t) auto

lemma create_with_preserves:
  assumes "wf_model m" "create_with sh p m = Some (n, m')"
  shows "wf_model m'"
proof -
  obtain t where wf: "wf_tree m t" using assms(1) unfolding wf_model_def by blast
  show ?thesis
  proof (cases p)
    case None
    then show ?thesis
      using create_with_wf[OF wf wf_tree_root[OF wf], of p sh] assms(2)
      unfolding wf_model_def by auto
  next
    case (Some pa)
    then have "pa \<in> set (preorder t)" using create_with_live[OF wf] assms(2) by simp
    then show ?thesis
      using create_with_wf[OF wf, of pa p sh] assms(2) Some
      unfolding wf_model_def by auto
  qed
qed


section \<open>Cutting off a subtree\<close>

lemma rt_in_preorder: "rt t \<in> set (preorder t)"
  by (cases t) simp

lemma rt_del_sub: "rt (del_sub n t) = rt t"
  by (cases t) simp

lemma sub_nodes_notin: "n \<notin> set (preorder t) \<Longrightarrow> sub_nodes n t = []"
  by (induction t) auto

lemma set_sub_nodes_subset: "set (sub_nodes n t) \<subseteq> set (preorder t)"
  by (induction t) auto

lemma sub_nodes_root: "rt t = n \<Longrightarrow> sub_nodes n t = preorder t"
  by (cases t) simp

lemma disjoint_trees:
  "distinct (concat (map preorder ts)) \<Longrightarrow> u \<in> set ts \<Longrightarrow> u' \<in> set ts \<Longrightarrow>
   x \<in> set (preorder u) \<Longrightarrow> x \<in> set (preorder u') \<Longrightarrow> u = u'"
  by (induction ts) auto

lemma distinct_roots: "distinct (concat (map preorder ts)) \<Longrightarrow> distinct (map rt ts)"
proof (induction ts)
  case Nil
  show ?case by simp
next
  case (Cons u us)
  have "rt u \<notin> rt ` set us"
  proof
    assume "rt u \<in> rt ` set us"
    then obtain v where v: "v \<in> set us" "rt v = rt u" by auto
    then have "rt u \<in> set (preorder v)" using rt_in_preorder[of v] by simp
    moreover have "rt u \<in> set (preorder u)" by (rule rt_in_preorder)
    ultimately show False using Cons.prems v(1) by auto
  qed
  then show ?case using Cons by simp
qed

lemma local_sub_nodes:
  assumes "distinct (concat (map preorder ts))" "u \<in> set ts"
    "D \<inter> set (concat (map preorder ts)) = set (concat (map (sub_nodes n) ts))"
  shows "D \<inter> set (preorder u) = set (sub_nodes n u)"
proof
  show "D \<inter> set (preorder u) \<subseteq> set (sub_nodes n u)"
  proof
    fix x assume x: "x \<in> D \<inter> set (preorder u)"
    then have "x \<in> set (concat (map (sub_nodes n) ts))" using assms(2,3) by auto
    then obtain u' where u': "u' \<in> set ts" "x \<in> set (sub_nodes n u')" by auto
    then have "x \<in> set (preorder u')" using set_sub_nodes_subset by blast
    then have "u = u'" using disjoint_trees[OF assms(1,2) u'(1)] x by blast
    then show "x \<in> set (sub_nodes n u)" using u'(2) by simp
  qed
  show "set (sub_nodes n u) \<subseteq> D \<inter> set (preorder u)"
    using assms(2,3) set_sub_nodes_subset[of n u] by auto
qed

lemma preorder_del_sub:
  "rt t \<noteq> n \<Longrightarrow> distinct (preorder t) \<Longrightarrow> D \<inter> set (preorder t) = set (sub_nodes n t) \<Longrightarrow>
   preorder (del_sub n t) = filter (\<lambda>x. x \<notin> D) (preorder t)"
proof (induction t)
  case (Tree b ts)
  have bn: "b \<noteq> n" using Tree.prems(1) by simp
  have d: "distinct (concat (map preorder ts))" and b: "b \<notin> set (concat (map preorder ts))"
    using Tree.prems(2) by auto
  have sn: "sub_nodes n (Tree b ts) = concat (map (sub_nodes n) ts)" using bn by simp
  have "set (concat (map (sub_nodes n) ts)) \<subseteq> set (concat (map preorder ts))"
    using set_sub_nodes_subset[of n] by fastforce
  moreover have "D \<inter> insert b (set (concat (map preorder ts))) = set (concat (map (sub_nodes n) ts))"
    using Tree.prems(3) unfolding sn by simp
  ultimately have bD: "b \<notin> D"
    and D': "D \<inter> set (concat (map preorder ts)) = set (concat (map (sub_nodes n) ts))"
    using b by blast+
  have loc: "\<And>u. u \<in> set ts \<Longrightarrow> D \<inter> set (preorder u) = set (sub_nodes n u)"
    using local_sub_nodes[OF d _ D'] by blast
  have forest: "set us \<subseteq> set ts \<Longrightarrow>
      concat (map preorder (map (del_sub n) (filter (\<lambda>t. rt t \<noteq> n) us)))
      = filter (\<lambda>x. x \<notin> D) (concat (map preorder us))" for us
  proof (induction us)
    case Nil
    show ?case by simp
  next
    case (Cons u us)
    then have u: "u \<in> set ts" by simp
    have du: "distinct (preorder u)" using d u by (induction ts) auto
    show ?case
    proof (cases "rt u = n")
      case True
      then have "set (preorder u) \<subseteq> D" using loc[OF u] sub_nodes_root[of u n] by auto
      then have "filter (\<lambda>x. x \<notin> D) (preorder u) = []" by (auto simp: filter_empty_conv)
      then show ?thesis using True Cons by simp
    next
      case False
      have "preorder (del_sub n u) = filter (\<lambda>x. x \<notin> D) (preorder u)"
        using Tree.IH[OF u False du loc[OF u]] .
      then show ?thesis using False Cons by simp
    qed
  qed
  show ?case using forest[of ts] bD by simp
qed

lemma removeAll_map_filter: "removeAll n (map f xs) = map f (filter (\<lambda>x. f x \<noteq> n) xs)"
  by (induction xs) auto

lemma shaped_del_sub:
  assumes "h n = Some nd" "parent nd = Some p" "h p = Some pn"
  shows "shaped h q t \<Longrightarrow> distinct (preorder t) \<Longrightarrow> rt t \<noteq> n \<Longrightarrow>
     D \<inter> set (preorder t) = set (sub_nodes n t) \<Longrightarrow>
     shaped ((h(p \<mapsto> pn\<lparr>children := removeAll n (children pn)\<rparr>)) |` (- D)) q (del_sub n t)"
proof (induction t arbitrary: q)
  case (Tree b ts)
  let ?h = "(h(p \<mapsto> pn\<lparr>children := removeAll n (children pn)\<rparr>)) |` (- D)"
  from Tree.prems(1) obtain bn where bn: "h b = Some bn" "parent bn = q" "children bn = map rt ts"
      and sub: "\<And>t. t \<in> set ts \<Longrightarrow> shaped h (Some b) t"
    by (auto split: option.splits)
  have ne: "b \<noteq> n" using Tree.prems(3) by simp
  have d: "distinct (concat (map preorder ts))" and b: "b \<notin> set (concat (map preorder ts))"
    using Tree.prems(2) by auto
  have sn: "sub_nodes n (Tree b ts) = concat (map (sub_nodes n) ts)" using ne by simp
  have "set (concat (map (sub_nodes n) ts)) \<subseteq> set (concat (map preorder ts))"
    using set_sub_nodes_subset[of n] by fastforce
  moreover have "D \<inter> insert b (set (concat (map preorder ts))) = set (concat (map (sub_nodes n) ts))"
    using Tree.prems(4) unfolding sn by simp
  ultimately have bD: "b \<notin> D"
    and D': "D \<inter> set (concat (map preorder ts)) = set (concat (map (sub_nodes n) ts))"
    using b by blast+
  have loc: "\<And>u. u \<in> set ts \<Longrightarrow> D \<inter> set (preorder u) = set (sub_nodes n u)"
    using local_sub_nodes[OF d _ D'] by blast
  have kids: "\<forall>u \<in> set (map (del_sub n) (filter (\<lambda>t. rt t \<noteq> n) ts)). shaped ?h (Some b) u"
  proof -
    have "shaped ?h (Some b) (del_sub n u)" if "u \<in> set ts" "rt u \<noteq> n" for u
    proof -
      have "distinct (preorder u)" using distinct_subtree[OF Tree.prems(2) that(1)] by simp
      then show ?thesis by (rule Tree.IH[OF that(1) sub[OF that(1)] _ that(2) loc[OF that(1)]])
    qed
    then show ?thesis by auto
  qed
  have e: "del_sub n (Tree b ts) = Tree b (map (del_sub n) (filter (\<lambda>t. rt t \<noteq> n) ts))" by simp
  show ?case
  proof (cases "b = p")
    case True
    have pn: "pn = bn" using bn(1) assms(3) True by simp
    have hb: "?h b = Some (pn\<lparr>children := removeAll n (children pn)\<rparr>)"
      using True bD by (simp add: restrict_map_def)
    have "shaped ?h q (Tree b (map (del_sub n) (filter (\<lambda>t. rt t \<noteq> n) ts)))
          = (parent (pn\<lparr>children := removeAll n (children pn)\<rparr>) = q
             \<and> children (pn\<lparr>children := removeAll n (children pn)\<rparr>)
                 = map rt (map (del_sub n) (filter (\<lambda>t. rt t \<noteq> n) ts))
             \<and> (\<forall>u \<in> set (map (del_sub n) (filter (\<lambda>t. rt t \<noteq> n) ts)). shaped ?h (Some b) u))"
      by (simp only: shaped.simps hb option.case)
    then have "shaped ?h q (Tree b (map (del_sub n) (filter (\<lambda>t. rt t \<noteq> n) ts)))"
      using kids bn(2,3) pn by (simp add: removeAll_map_filter rt_del_sub comp_def)
    then show ?thesis by (simp only: e)
  next
    case False
    have hb: "?h b = Some bn" using False bD bn(1) by (simp add: restrict_map_def)
    have nokid: "filter (\<lambda>t. rt t \<noteq> n) ts = ts"
    proof -
      have "rt u \<noteq> n" if "u \<in> set ts" for u
      proof
        assume "rt u = n"
        then have "shaped h (Some b) (Tree n (case u of Tree x us \<Rightarrow> us))"
          using sub[OF that] by (cases u) simp
        then have "parent nd = Some b" using assms(1) by simp
        then show False using assms(2) False by simp
      qed
      then show ?thesis by (simp add: filter_id_conv)
    qed
    have "shaped ?h q (Tree b (map (del_sub n) (filter (\<lambda>t. rt t \<noteq> n) ts)))
          = (parent bn = q
             \<and> children bn = map rt (map (del_sub n) (filter (\<lambda>t. rt t \<noteq> n) ts))
             \<and> (\<forall>u \<in> set (map (del_sub n) (filter (\<lambda>t. rt t \<noteq> n) ts)). shaped ?h (Some b) u))"
      by (simp only: shaped.simps hb option.case)
    then have "shaped ?h q (Tree b (map (del_sub n) (filter (\<lambda>t. rt t \<noteq> n) ts)))"
      using kids bn(2,3) nokid by (simp add: rt_del_sub comp_def)
    then show ?thesis by (simp only: e)
  qed
qed

lemma concat_sub_nodes:
  "distinct (concat (map preorder ts)) \<Longrightarrow> u \<in> set ts \<Longrightarrow> n \<in> set (preorder u) \<Longrightarrow>
   concat (map (sub_nodes n) ts) = sub_nodes n u"
proof (induction ts)
  case Nil
  then show ?case by simp
next
  case (Cons v vs)
  show ?case
  proof (cases "n \<in> set (preorder v)")
    case True
    have "u = v" using disjoint_trees[OF Cons.prems(1,2) _ Cons.prems(3) True] by simp
    moreover have "\<And>w. w \<in> set vs \<Longrightarrow> sub_nodes n w = []"
      using Cons.prems(1) True by (intro sub_nodes_notin) auto
    ultimately show ?thesis by simp
  next
    case False
    then have "sub_nodes n v = []" by (rule sub_nodes_notin)
    moreover have "u \<in> set vs" using Cons.prems(2,3) False by auto
    moreover have "distinct (concat (map preorder vs))" using Cons.prems(1) by simp
    ultimately show ?thesis using Cons.IH Cons.prems(3) by simp
  qed
qed

lemma find_subtree:
  assumes "shaped h q t" "distinct (preorder t)" "n \<in> set (preorder t)"
  shows "\<exists>s q'. rt s = n \<and> preorder s = sub_nodes n t \<and> shaped h q' s \<and> distinct (preorder s)
           \<and> (n = rt t \<longrightarrow> q' = q)
           \<and> (n \<noteq> rt t \<longrightarrow>
                (\<exists>p pn. q' = Some p \<and> p \<in> set (preorder t) \<and> p \<notin> set (sub_nodes n t)
                   \<and> h p = Some pn \<and> n \<in> set (children pn) \<and> distinct (children pn)))"
  using assms
proof (induction t arbitrary: q)
  case (Tree b ts)
  from Tree.prems(1) obtain bn where bn: "h b = Some bn" "parent bn = q" "children bn = map rt ts"
      and sub: "\<And>t. t \<in> set ts \<Longrightarrow> shaped h (Some b) t"
    by (auto split: option.splits)
  show ?case
  proof (cases "b = n")
    case True
    then show ?thesis using Tree.prems by (intro exI[of _ "Tree b ts"] exI[of _ q]) simp
  next
    case False
    then obtain u where u: "u \<in> set ts" "n \<in> set (preorder u)" using Tree.prems(3) by auto
    have d: "distinct (concat (map preorder ts))" using Tree.prems(2) by simp
    have du: "distinct (preorder u)" "b \<notin> set (preorder u)"
      using distinct_subtree[OF Tree.prems(2) u(1)] by simp_all
    have sn: "sub_nodes n (Tree b ts) = sub_nodes n u"
      using False concat_sub_nodes[OF d u] by simp
    from Tree.IH[OF u(1) sub[OF u(1)] du(1) u(2)]
    obtain s q' where s: "rt s = n" "preorder s = sub_nodes n u" "shaped h q' s" "distinct (preorder s)"
        "n = rt u \<longrightarrow> q' = Some b"
        "n \<noteq> rt u \<longrightarrow> (\<exists>p pn. q' = Some p \<and> p \<in> set (preorder u) \<and> p \<notin> set (sub_nodes n u)
                   \<and> h p = Some pn \<and> n \<in> set (children pn) \<and> distinct (children pn))"
      by blast
    have par: "\<exists>p pn. q' = Some p \<and> p \<in> set (preorder (Tree b ts)) \<and> p \<notin> set (sub_nodes n u)
                   \<and> h p = Some pn \<and> n \<in> set (children pn) \<and> distinct (children pn)"
    proof (cases "n = rt u")
      case True
      have "b \<notin> set (sub_nodes n u)" using du(2) set_sub_nodes_subset[of n u] by blast
      moreover have "n \<in> set (children bn)" using bn(3) u(1) True by auto
      moreover have "distinct (children bn)" using bn(3) distinct_roots[OF d] by simp
      ultimately show ?thesis using s(5) True bn(1) by simp
    next
      case False
      then obtain p pn where "q' = Some p" "p \<in> set (preorder u)" "p \<notin> set (sub_nodes n u)"
          "h p = Some pn" "n \<in> set (children pn)" "distinct (children pn)"
        using s(6) by blast
      then show ?thesis using u(1) by auto
    qed
    show ?thesis
      using s(1-4) par False unfolding sn
      by (intro exI[of _ s] exI[of _ q']) simp
  qed
qed

lemma children_in_tree:
  "shaped h q t \<Longrightarrow> x \<in> set (preorder t) \<Longrightarrow> h x = Some nd \<Longrightarrow>
   set (children nd) \<subseteq> set (preorder t)"
proof (induction t arbitrary: q)
  case (Tree b ts)
  from Tree.prems(1) obtain bn where bn: "h b = Some bn" "children bn = map rt ts"
      and sub: "\<And>t. t \<in> set ts \<Longrightarrow> shaped h (Some b) t"
    by (auto split: option.splits)
  show ?case
  proof (cases "x = b")
    case True
    then have "nd = bn" using bn(1) Tree.prems(3) by simp
    then show ?thesis using bn(2) rt_in_preorder by fastforce
  next
    case False
    then obtain u where u: "u \<in> set ts" "x \<in> set (preorder u)" using Tree.prems(2) by auto
    then have "set (children nd) \<subseteq> set (preorder u)"
      using Tree.IH[OF u(1) sub[OF u(1)] u(2) Tree.prems(3)] by simp
    then show ?thesis using u(1) by auto
  qed
qed

lemma tree_reach_sub: "shaped h q t \<Longrightarrow> x \<in> set (preorder t) \<Longrightarrow> (rt t, x) \<in> (child_rel h)\<^sup>*"
proof (induction t arbitrary: q)
  case (Tree b ts)
  from Tree.prems(1) obtain bn where bn: "h b = Some bn" "children bn = map rt ts"
      and sub: "\<And>t. t \<in> set ts \<Longrightarrow> shaped h (Some b) t"
    by (auto split: option.splits)
  show ?case
  proof (cases "x = b")
    case True
    then show ?thesis by simp
  next
    case False
    then obtain u where u: "u \<in> set ts" "x \<in> set (preorder u)" using Tree.prems(2) by auto
    have "(b, rt u) \<in> child_rel h" using bn u(1) by (auto simp: child_rel_def)
    moreover have "(rt u, x) \<in> (child_rel h)\<^sup>*" using Tree.IH[OF u(1) sub[OF u(1)] u(2)] .
    ultimately show ?thesis by simp
  qed
qed

lemma tree_reach:
  assumes "shaped h q t"
  shows "(child_rel h)\<^sup>* `` {rt t} = set (preorder t)"
proof
  show "set (preorder t) \<subseteq> (child_rel h)\<^sup>* `` {rt t}"
    using tree_reach_sub[OF assms] by auto
  have "(rt t, y) \<in> (child_rel h)\<^sup>* \<Longrightarrow> y \<in> set (preorder t)" for y
  proof (induction rule: rtrancl_induct)
    case base
    show ?case by (rule rt_in_preorder)
  next
    case (step y z)
    then obtain nd where "h y = Some nd" "z \<in> set (children nd)" by (auto simp: child_rel_def)
    then show ?case using children_in_tree[OF assms step.IH] by blast
  qed
  then show "(child_rel h)\<^sup>* `` {rt t} \<subseteq> set (preorder t)" by auto
qed

lemma fold_removeAll:
  "fold (\<lambda>x an. if x \<noteq> n then removeAll x an else an) xs ys = filter (\<lambda>y. y \<notin> set xs - {n}) ys"
proof (induction xs arbitrary: ys)
  case Nil
  show ?case by simp
next
  case (Cons x xs)
  show ?case
  proof (cases "x = n")
    case True
    have "filter (\<lambda>y. y \<notin> set xs - {n}) ys = filter (\<lambda>y. y \<notin> set (x # xs) - {n}) ys"
      using True by (intro filter_cong) auto
    then show ?thesis using True Cons.IH by simp
  next
    case False
    have "filter (\<lambda>y. y \<notin> set xs - {n}) (filter (\<lambda>y. x \<noteq> y) ys)
          = filter (\<lambda>y. y \<notin> set (x # xs) - {n}) ys"
      unfolding filter_filter using False by (intro filter_cong) auto
    then show ?thesis using False Cons.IH by (simp add: removeAll_filter_not_eq)
  qed
qed

lemma length_filter_notin:
  assumes "distinct xs" "distinct ds" "set ds \<subseteq> set xs"
  shows "length (filter (\<lambda>x. x \<notin> set ds) xs) + length ds = length xs"
proof -
  have "set (filter (\<lambda>x. x \<in> set ds) xs) = set ds" using assms(3) by auto
  moreover have "distinct (filter (\<lambda>x. x \<in> set ds) xs)" using assms(1) by simp
  ultimately have "length (filter (\<lambda>x. x \<in> set ds) xs) = length ds"
    using assms(2) by (metis distinct_card)
  moreover have "length (filter (\<lambda>x. x \<in> set ds) xs) + length (filter (\<lambda>x. \<not> x \<in> set ds) xs) = length xs"
    by (rule sum_length_filter_compl)
  ultimately show ?thesis by simp
qed


section \<open>Removing a node\<close>

lemma remove_node_wf:
  assumes wf: "wf_tree m t" and n: "n \<in> set (preorder t)" and nr: "n \<noteq> root_node m"
  shows "\<exists>nd p pn. node_store m n = Some nd \<and> parent nd = Some p \<and> node_store m p = Some pn
           \<and> n \<in> set (children pn) \<and> distinct (children pn) \<and> p \<in> set (preorder t)
           \<and> p \<notin> set (sub_nodes n t)
           \<and> n \<in> set (sub_nodes n t) \<and> distinct (sub_nodes n t)
           \<and> set (sub_nodes n t) \<subseteq> set (preorder t)
           \<and> collect (node_store m) n = Some (sub_nodes n t)
           \<and> descendants (node_store m) n = set (sub_nodes n t) - {n}
           \<and> remove_node (Some n) m =
               Some (m\<lparr>all_nodes := filter (\<lambda>x. x \<notin> set (sub_nodes n t)) (all_nodes m),
                       node_store := ((node_store m)(p \<mapsto> pn\<lparr>children := removeAll n (children pn)\<rparr>))
                                       |` (- set (sub_nodes n t))\<rparr>)
           \<and> wf_tree (m\<lparr>all_nodes := filter (\<lambda>x. x \<notin> set (sub_nodes n t)) (all_nodes m),
                       node_store := ((node_store m)(p \<mapsto> pn\<lparr>children := removeAll n (children pn)\<rparr>))
                                       |` (- set (sub_nodes n t))\<rparr>)
                 (del_sub n t)"
proof -
  let ?h = "node_store m"
  let ?D = "set (sub_nodes n t)"
  have w: "rt t = root_node m" "shaped ?h None t" "distinct (preorder t)"
    "dom ?h = set (preorder t)" "set (all_nodes m) = set (preorder t)"
    "distinct (all_nodes m)" "\<forall>a \<in> dom ?h. a < next_addr m"
    "\<forall>s \<in> dom (shape_store m). s < next_addr m" "distinct (owned_shapes m)"
    "set (owned_shapes m) \<subseteq> dom (shape_store m)"
    "\<forall>a n s. ?h a = Some n \<and> shape n = Some s \<longrightarrow> s \<in> set (owned_shapes m)"
    using wf unfolding wf_tree_def by blast+
  have nrt: "n \<noteq> rt t" and nrt': "rt t \<noteq> n" using nr w(1) by simp_all
  obtain s p pn where s: "rt s = n" "preorder s = sub_nodes n t" "shaped ?h (Some p) s"
      "distinct (preorder s)" "p \<in> set (preorder t)" "p \<notin> ?D" "?h p = Some pn"
      "n \<in> set (children pn)" "distinct (children pn)"
    using find_subtree[OF w(2,3) n] nrt by blast
  obtain nd where nd: "?h n = Some nd" "parent nd = Some p"
    using s(1,3) by (cases s) (auto split: option.splits)
  let ?h1 = "?h(p \<mapsto> pn\<lparr>children := removeAll n (children pn)\<rparr>)"
  have nD: "n \<in> ?D" using s(1,2) rt_in_preorder[of s] by simp
  have sub: "?D \<subseteq> set (preorder t)" by (rule set_sub_nodes_subset)
  have np: "n \<noteq> p" using nD s(6) by blast
  have rc: "remove_child ?h p n = Some ?h1" using s(7) by (simp add: remove_child_def)
  have sh1: "shaped ?h1 (Some p) s" using s(3,6) s(2) by (simp add: shaped_upd_other)
  have c0: "collect ?h n = Some (sub_nodes n t)"
    using collect_tree[OF s(3)] s(1,2) by (simp add: collect_def)
  have c1: "collect ?h1 n = Some (sub_nodes n t)"
    using collect_tree[OF sh1] s(1,2) by (simp add: collect_def)
  have d1: "delete_node ?h1 n = Some (?h1 |` (- ?D))"
    using delete_tree[OF sh1 s(4)] s(1,2) by (simp add: delete_node_def)
  have desc: "descendants ?h n = ?D - {n}"
    using tree_reach[OF s(3)] s(1,2) by (simp add: descendants_def)
  have fl: "fold (\<lambda>x an. if x \<noteq> n then removeAll x an else an) (sub_nodes n t)
              (removeAll n (all_nodes m))
            = filter (\<lambda>x. x \<notin> ?D) (all_nodes m)"
  proof -
    have "filter (\<lambda>y. y \<notin> ?D - {n}) (filter (\<lambda>y. n \<noteq> y) (all_nodes m))
          = filter (\<lambda>x. x \<notin> ?D) (all_nodes m)"
      unfolding filter_filter using nD by (intro filter_cong) auto
    moreover have "fold (\<lambda>x an. if x \<noteq> n then removeAll x an else an) (sub_nodes n t)
              (removeAll n (all_nodes m))
          = filter (\<lambda>y. y \<notin> ?D - {n}) (removeAll n (all_nodes m))"
      by (rule fold_removeAll)
    moreover have "removeAll n (all_nodes m) = filter (\<lambda>y. n \<noteq> y) (all_nodes m)"
      by (simp only: removeAll_filter_not_eq)
    ultimately show ?thesis by (simp only:)
  qed
  let ?m' = "m\<lparr>all_nodes := filter (\<lambda>x. x \<notin> ?D) (all_nodes m), node_store := ?h1 |` (- ?D)\<rparr>"
  have rm: "remove_node (Some n) m = Some ?m'"
    using nr nd rc c1 d1 fl by (simp add: remove_node_def Let_def del: fun_upd_apply)
  have pre: "preorder (del_sub n t) = filter (\<lambda>x. x \<notin> ?D) (preorder t)"
    using preorder_del_sub[OF nrt' w(3), of ?D] sub by (simp add: Int_absorb2)
  have sh': "shaped (?h1 |` (- ?D)) None (del_sub n t)"
    using shaped_del_sub[OF nd s(7) w(2,3) nrt', of ?D] sub by (simp add: Int_absorb2)
  have dom': "dom (?h1 |` (- ?D)) = set (preorder t) - ?D"
  proof -
    have "dom ?h1 = set (preorder t)" using w(4) s(5) by auto
    then show ?thesis by (simp only: dom_restrict) blast
  qed
  have shp: "\<forall>a x s'. (?h1 |` (- ?D)) a = Some x \<and> shape x = Some s' \<longrightarrow> s' \<in> set (owned_shapes m)"
    using w(11) s(7) by (auto simp: restrict_map_def split: if_splits)
  have bnd: "\<forall>a \<in> dom (?h1 |` (- ?D)). a < next_addr m"
    using w(7) dom' w(4) by auto
  have wf': "wf_tree ?m' (del_sub n t)"
    unfolding wf_tree_def
    using sh' pre dom' shp bnd w(1,3,5,6,8,9,10)
    by (simp add: rt_del_sub del: fun_upd_apply) auto
  show ?thesis
    using nd s(5-9) nD s(2,4) sub c0 desc rm wf'
    by (intro exI[of _ nd] exI[of _ p] exI[of _ pn]) (simp del: fun_upd_apply)
qed

lemma wf_model_ctor: "wf_model model_t_ctor"
  unfolding wf_model_def wf_tree_def
  by (rule exI[of _ "Tree 0 []"])
     (simp add: model_t_ctor_def alloc_node_def model_node_init_def)

lemma remove_node_preserves:
  assumes "wf_model m" "remove_node node m = Some m'"
  shows "wf_model m'"
proof (cases node)
  case None
  then show ?thesis using assms by (simp add: remove_node_def)
next
  case (Some n)
  show ?thesis
  proof (cases "n = root_node m")
    case True
    then show ?thesis using assms Some by (simp add: remove_node_def)
  next
    case False
    obtain t where wf: "wf_tree m t" using assms(1) unfolding wf_model_def by blast
    have "node_store m n \<noteq> None"
      using assms(2) Some False by (auto simp: remove_node_def split: option.splits)
    then have "n \<in> set (preorder t)" using wf unfolding wf_tree_def by auto
    then show ?thesis
      using remove_node_wf[OF wf _ False] assms(2) Some unfolding wf_model_def by auto
  qed
qed

lemma one_box_eq:
  "create_box None model_t_ctor = Some (2, one_box)"
  "root_node one_box = 0" "all_nodes one_box = [0, 2]" "wf_model one_box"
proof -
  obtain t where t: "wf_tree model_t_ctor t" using wf_model_ctor unfolding wf_model_def by blast
  have n: "next_addr model_t_ctor = 1" "root_node model_t_ctor = 0" "all_nodes model_t_ctor = [0]"
    by (simp_all add: model_t_ctor_def alloc_node_def)
  obtain m' where m': "create_with (box_t 0) None model_t_ctor = Some (Suc (next_addr model_t_ctor), m')"
      "root_node m' = root_node model_t_ctor"
      "all_nodes m' = all_nodes model_t_ctor @ [Suc (next_addr model_t_ctor)]"
    using create_with_wf[OF t wf_tree_root[OF t], of None "box_t 0"] by auto
  then have c: "create_box None model_t_ctor = Some (2, m')"
    using n by (simp add: create_with_eqs numeral_2_eq_2)
  then have e: "one_box = m'" by (simp add: one_box_def)
  show "create_box None model_t_ctor = Some (2, one_box)" using c e by simp
  show "root_node one_box = 0" using m'(2) n e by simp
  show "all_nodes one_box = [0, 2]" using m'(3) n e by (simp add: numeral_2_eq_2)
  show "wf_model one_box"
    using create_with_preserves[OF wf_model_ctor] c e by (simp add: create_with_eqs)
qed

lemma one_box_next: "next_addr one_box = 3"
proof -
  obtain t where t: "wf_tree model_t_ctor t" using wf_model_ctor unfolding wf_model_def by blast
  have n: "next_addr model_t_ctor = 1" by (simp add: model_t_ctor_def alloc_node_def)
  obtain m' where m': "create_with (box_t 0) None model_t_ctor = Some (Suc (next_addr model_t_ctor), m')"
      "next_addr m' = Suc (Suc (next_addr model_t_ctor))"
    using create_with_wf[OF t wf_tree_root[OF t], of None "box_t 0"] by auto
  then have "one_box = m'" using one_box_eq(1) n by (simp add: create_with_eqs numeral_2_eq_2)
  then show ?thesis using m'(2) n by (simp add: numeral_3_eq_3)
qed

lemma two_boxes_eq:
  "create_box (Some 2) one_box = Some (4, two_boxes)"
  "root_node two_boxes = 0" "all_nodes two_boxes = [0, 2, 4]" "wf_model two_boxes"
proof -
  obtain t where t: "wf_tree one_box t" using one_box_eq(4) unfolding wf_model_def by blast
  have "set (all_nodes one_box) = set (preorder t)" using t unfolding wf_tree_def by blast
  then have p: "2 \<in> set (preorder t)" using one_box_eq(3) by auto
  obtain m' where m': "create_with (box_t 0) (Some 2) one_box = Some (Suc (next_addr one_box), m')"
      "root_node m' = root_node one_box"
      "all_nodes m' = all_nodes one_box @ [Suc (next_addr one_box)]"
    using create_with_wf[OF t p, of "Some 2" "box_t 0"] by auto
  have s: "Suc (next_addr one_box) = 4" using one_box_next by simp
  have c: "create_box (Some 2) one_box = Some (4, m')"
    using m'(1) s by (simp add: create_with_eqs)
  then have e: "two_boxes = m'" by (simp add: two_boxes_def)
  show "create_box (Some 2) one_box = Some (4, two_boxes)" using c e by simp
  show "root_node two_boxes = 0" using m'(2) one_box_eq(2) e by simp
  show "all_nodes two_boxes = [0, 2, 4]" using m'(3) one_box_eq(3) e s by simp
  show "wf_model two_boxes"
    using create_with_preserves[OF one_box_eq(4)] c e by (simp add: create_with_eqs)
qed

lemma length_removeAll_distinct:
  "distinct xs \<Longrightarrow> n \<in> set xs \<Longrightarrow> length (removeAll n xs) + 1 = length xs"
  by (induction xs) auto

text \<open>
  Claim C5. \<^verbatim>\<open>remove_node\<close> changes nothing when the node is null or the root. For a
  non-root node \<open>n\<close> of a well-formed graph it takes \<open>n\<close> out of its parent's child list,
  which gets shorter by exactly one, and takes \<open>n\<close> and all its descendants out of
  \<open>all_nodes\<close>, which gets shorter by exactly the number of descendants plus one.
\<close>

theorem remove_node_effect:
  "remove_node None m = Some m
   \<and> remove_node (Some (root_node m)) m = Some m
   \<and> (wf_model m \<and> n \<in> set (all_nodes m) \<and> n \<noteq> root_node m \<longrightarrow>
        (\<exists>m' nd p pn pn' ds.
            remove_node (Some n) m = Some m'
          \<and> node_store m n = Some nd \<and> parent nd = Some p
          \<and> node_store m p = Some pn \<and> node_store m' p = Some pn'
          \<and> children pn' = removeAll n (children pn)
          \<and> length (children pn') + 1 = length (children pn)
          \<and> collect (node_store m) n = Some ds
          \<and> set ds = insert n (descendants (node_store m) n)
          \<and> length ds = card (descendants (node_store m) n) + 1
          \<and> all_nodes m' = filter (\<lambda>x. x \<notin> set ds) (all_nodes m)
          \<and> length (all_nodes m') + (card (descendants (node_store m) n) + 1) = length (all_nodes m)))"
proof -
  have a: "remove_node None m = Some m" by (simp add: remove_node_def)
  have b: "remove_node (Some (root_node m)) m = Some m" by (simp add: remove_node_def)
  have c: "\<exists>m' nd p pn pn' ds.
            remove_node (Some n) m = Some m'
          \<and> node_store m n = Some nd \<and> parent nd = Some p
          \<and> node_store m p = Some pn \<and> node_store m' p = Some pn'
          \<and> children pn' = removeAll n (children pn)
          \<and> length (children pn') + 1 = length (children pn)
          \<and> collect (node_store m) n = Some ds
          \<and> set ds = insert n (descendants (node_store m) n)
          \<and> length ds = card (descendants (node_store m) n) + 1
          \<and> all_nodes m' = filter (\<lambda>x. x \<notin> set ds) (all_nodes m)
          \<and> length (all_nodes m') + (card (descendants (node_store m) n) + 1) = length (all_nodes m)"
    if wf: "wf_model m" and n: "n \<in> set (all_nodes m)" and nr: "n \<noteq> root_node m"
  proof -
    obtain t where t: "wf_tree m t" using wf unfolding wf_model_def by blast
    have an: "set (all_nodes m) = set (preorder t)" "distinct (all_nodes m)"
      using t unfolding wf_tree_def by blast+
    then have nt: "n \<in> set (preorder t)" using n by simp
    let ?D = "set (sub_nodes n t)"
    obtain nd p pn where r: "node_store m n = Some nd" "parent nd = Some p" "node_store m p = Some pn"
        "n \<in> set (children pn)" "distinct (children pn)" "p \<in> set (preorder t)"
        "p \<notin> ?D" "n \<in> ?D" "distinct (sub_nodes n t)" "?D \<subseteq> set (preorder t)"
        "collect (node_store m) n = Some (sub_nodes n t)"
        "descendants (node_store m) n = ?D - {n}"
        "remove_node (Some n) m =
               Some (m\<lparr>all_nodes := filter (\<lambda>x. x \<notin> ?D) (all_nodes m),
                       node_store := ((node_store m)(p \<mapsto> pn\<lparr>children := removeAll n (children pn)\<rparr>))
                                       |` (- ?D)\<rparr>)"
      using remove_node_wf[OF t nt nr] by blast
    let ?m' = "m\<lparr>all_nodes := filter (\<lambda>x. x \<notin> ?D) (all_nodes m),
                       node_store := ((node_store m)(p \<mapsto> pn\<lparr>children := removeAll n (children pn)\<rparr>))
                                       |` (- ?D)\<rparr>"
    have p': "node_store ?m' p = Some (pn\<lparr>children := removeAll n (children pn)\<rparr>)"
      using r(7) by (simp add: restrict_map_def)
    have len: "length (removeAll n (children pn)) + 1 = length (children pn)"
      by (rule length_removeAll_distinct[OF r(5,4)])
    have sd: "?D = insert n (descendants (node_store m) n)" using r(8,12) by auto
    have "card ?D = length (sub_nodes n t)" using r(9) by (rule distinct_card)
    moreover have "card (?D - {n}) = card ?D - 1" using r(8) by simp
    moreover have "card ?D > 0" using r(8) by (auto simp: card_gt_0_iff)
    ultimately have cd: "length (sub_nodes n t) = card (descendants (node_store m) n) + 1"
      using r(12) by simp
    have "length (filter (\<lambda>x. x \<notin> ?D) (all_nodes m)) + length (sub_nodes n t) = length (all_nodes m)"
      using length_filter_notin[OF an(2) r(9)] r(10) an(1) by simp
    then have la: "length (all_nodes ?m') + (card (descendants (node_store m) n) + 1) = length (all_nodes m)"
      using cd by simp
    show ?thesis
      using r(1,2,3,11,13) p' len sd cd la
      by (intro exI[of _ ?m'] exI[of _ nd] exI[of _ p] exI[of _ pn]
          exI[of _ "pn\<lparr>children := removeAll n (children pn)\<rparr>"] exI[of _ "sub_nodes n t"])
         (simp del: fun_upd_apply)
  qed
  show ?thesis using a b c by blast
qed

text \<open>Removing the first box of \<open>two_boxes\<close>, which has the second box below it.\<close>

theorem remove_node_witness:
  "wf_model two_boxes \<and> 2 \<in> set (all_nodes two_boxes) \<and> 2 \<noteq> root_node two_boxes
   \<and> (\<exists>m' nd p pn pn' ds.
            remove_node (Some 2) two_boxes = Some m'
          \<and> node_store two_boxes 2 = Some nd \<and> parent nd = Some p
          \<and> node_store two_boxes p = Some pn \<and> node_store m' p = Some pn'
          \<and> children pn' = removeAll 2 (children pn)
          \<and> length (children pn') + 1 = length (children pn)
          \<and> collect (node_store two_boxes) 2 = Some ds
          \<and> set ds = insert 2 (descendants (node_store two_boxes) 2)
          \<and> length ds = card (descendants (node_store two_boxes) 2) + 1
          \<and> all_nodes m' = filter (\<lambda>x. x \<notin> set ds) (all_nodes two_boxes)
          \<and> length (all_nodes m') + (card (descendants (node_store two_boxes) 2) + 1)
              = length (all_nodes two_boxes))"
  using remove_node_effect[of two_boxes 2] two_boxes_eq by simp


section \<open>Loading\<close>

lemma delete_shapes_ok:
  "distinct xs \<Longrightarrow> set xs \<subseteq> dom ss \<Longrightarrow> delete_shapes ss xs = Some (ss |` (- set xs))"
proof (induction xs arbitrary: ss)
  case Nil
  show ?case by (simp add: restrict_map_def)
next
  case (Cons x xs)
  then obtain sh where sh: "ss x = Some sh" by auto
  have "delete_shapes (ss(x := None)) xs = Some ((ss(x := None)) |` (- set xs))"
    using Cons.prems by (intro Cons.IH) auto
  moreover have "(ss(x := None)) |` (- set xs) = ss |` (- set (x # xs))"
    by (rule ext) (simp add: restrict_map_def)
  ultimately show ?case using sh by simp
qed

lemma cleanup_wf:
  assumes "wf_tree m t"
  shows "cleanup m = Some (m\<lparr>node_store := Map.empty,
                            shape_store := shape_store m |` (- set (owned_shapes m)),
                            owned_shapes := [], all_nodes := []\<rparr>)"
proof -
  have w: "rt t = root_node m" "shaped (node_store m) None t" "distinct (preorder t)"
    "dom (node_store m) = set (preorder t)" "distinct (owned_shapes m)"
    "set (owned_shapes m) \<subseteq> dom (shape_store m)"
    using assms unfolding wf_tree_def by blast+
  have "delete_node (node_store m) (root_node m) = Some (node_store m |` (- set (preorder t)))"
    using delete_tree[OF w(2,3)] w(1) by (simp add: delete_node_def)
  moreover have "node_store m |` (- set (preorder t)) = Map.empty"
    using w(4) by (intro ext) (auto simp: restrict_map_def)
  moreover have "delete_shapes (shape_store m) (owned_shapes m)
                 = Some (shape_store m |` (- set (owned_shapes m)))"
    by (rule delete_shapes_ok[OF w(5,6)])
  ultimately show ?thesis by (simp add: cleanup_def)
qed

lemma load_start_wf:
  assumes "wf_tree m t"
  shows "wf_tree (m\<lparr>node_store := [next_addr m \<mapsto> model_node_init None None],
                    shape_store := shape_store m |` (- set (owned_shapes m)),
                    owned_shapes := [], all_nodes := [next_addr m],
                    root_node := next_addr m, next_addr := Suc (next_addr m)\<rparr>)
           (Tree (next_addr m) [])"
proof -
  have "\<forall>s \<in> dom (shape_store m). s < next_addr m" using assms unfolding wf_tree_def by blast
  then have "\<forall>s \<in> dom (shape_store m |` (- set (owned_shapes m))). s < Suc (next_addr m)"
    by (auto simp: restrict_map_def less_Suc_eq split: if_splits)
  then show ?thesis
    unfolding wf_tree_def by (simp add: model_node_init_def)
qed

lemma wf_tree_update_fields:
  assumes wf: "wf_tree m t" and nd: "node_store m a = Some nd"
    and same: "parent nd' = parent nd" "children nd' = children nd" "shape nd' = shape nd"
  shows "wf_tree (m\<lparr>node_store := (node_store m)(a \<mapsto> nd')\<rparr>) t"
proof -
  have w: "rt t = root_node m" "shaped (node_store m) None t" "distinct (preorder t)"
    "dom (node_store m) = set (preorder t)" "set (all_nodes m) = set (preorder t)"
    "distinct (all_nodes m)" "\<forall>a \<in> dom (node_store m). a < next_addr m"
    "\<forall>s \<in> dom (shape_store m). s < next_addr m" "distinct (owned_shapes m)"
    "set (owned_shapes m) \<subseteq> dom (shape_store m)"
    "\<forall>a n s. node_store m a = Some n \<and> shape n = Some s \<longrightarrow> s \<in> set (owned_shapes m)"
    using wf unfolding wf_tree_def by blast+
  have "shaped ((node_store m)(a \<mapsto> nd')) None t = shaped (node_store m) None t"
    using nd same by (intro shaped_struct_cong) auto
  then have s1: "shaped ((node_store m)(a \<mapsto> nd')) None t" using w(2) by simp
  have s2: "dom ((node_store m)(a \<mapsto> nd')) = set (preorder t)" using w(4) nd by auto
  have s3: "\<forall>x n s. ((node_store m)(a \<mapsto> nd')) x = Some n \<and> shape n = Some s
              \<longrightarrow> s \<in> set (owned_shapes m)"
    using w(11) nd same(3) by auto
  have s4: "\<forall>x \<in> dom ((node_store m)(a \<mapsto> nd')). x < next_addr m" using w(7) nd by auto
  show ?thesis
    unfolding wf_tree_def using s1 s2 s3 s4 w(1,3,5,6,8,9,10) by (simp del: fun_upd_apply)
qed

lemma load_shape_cases:
  "load_shape ty m = (None, m)
   \<or> (\<exists>sh. load_shape ty m =
         (Some (next_addr m),
          m\<lparr>shape_store := (shape_store m)(next_addr m \<mapsto> sh), next_addr := Suc (next_addr m)\<rparr>))"
  by (auto simp: load_shape_def alloc_shape_def)

lemma load_line_unfold:
  "load_line (Some f) (m, ns) =
     (case new_model_node (fst (load_shape (f_type f) m))
             (Some (if 0 \<le> f_parentIdx f \<and> f_parentIdx f < int (length ns)
                    then ns ! nat (f_parentIdx f)
                    else root_node
                      (case fst (load_shape (f_type f) m) of
                         None \<Rightarrow> snd (load_shape (f_type f) m)
                       | Some sa \<Rightarrow> (snd (load_shape (f_type f) m))\<lparr>owned_shapes :=
                             owned_shapes (snd (load_shape (f_type f) m)) @ [sa]\<rparr>)))
             (case fst (load_shape (f_type f) m) of
                None \<Rightarrow> snd (load_shape (f_type f) m)
              | Some sa \<Rightarrow> (snd (load_shape (f_type f) m))\<lparr>owned_shapes :=
                    owned_shapes (snd (load_shape (f_type f) m)) @ [sa]\<rparr>) of
        None \<Rightarrow> None
      | Some (node, m3) \<Rightarrow>
          (case node_store m3 node of
             None \<Rightarrow> None
           | Some n \<Rightarrow>
               Some (m3\<lparr>node_store := (node_store m3)(node \<mapsto>
                           n\<lparr>translation := translate mat4_id (vec3 (f_tx f) (f_ty f) (f_tz f)),
                             scale := scale_mat mat4_id (vec3 (f_sx f) (f_sy f) (f_sz f)),
                             color := vec4 (f_cr f) (f_cg f) (f_cb f) 1\<rparr>),
                        all_nodes := all_nodes m3 @ [node]\<rparr>,
                     ns @ [node])))"
  by (simp add: load_line_def case_prod_beta Let_def cong: option.case_cong if_cong)

lemma load_line_some:
  assumes wf: "wf_tree m t" and ns: "set ns \<subseteq> set (preorder t)"
  shows "\<exists>m' a t' pa pn nd.
           load_line (Some f) (m, ns) = Some (m', ns @ [a])
         \<and> wf_tree m' t' \<and> set (ns @ [a]) \<subseteq> set (preorder t')
         \<and> root_node m' = root_node m
         \<and> a \<notin> set (all_nodes m) \<and> all_nodes m' = all_nodes m @ [a]
         \<and> pa = (if 0 \<le> f_parentIdx f \<and> f_parentIdx f < int (length ns)
                  then ns ! nat (f_parentIdx f) else root_node m)
         \<and> pa \<noteq> a
         \<and> node_store m pa = Some pn
         \<and> node_store m' pa = Some (pn\<lparr>children := children pn @ [a]\<rparr>)
         \<and> node_store m' a = Some nd
         \<and> parent nd = Some pa \<and> children nd = []
         \<and> translation nd = translate mat4_id (vec3 (f_tx f) (f_ty f) (f_tz f))
         \<and> rotation nd = mat4_id
         \<and> scale nd = scale_mat mat4_id (vec3 (f_sx f) (f_sy f) (f_sz f))
         \<and> color nd = vec4 (f_cr f) (f_cg f) (f_cb f) 1
         \<and> (\<forall>x. x \<noteq> pa \<and> x \<noteq> a \<longrightarrow> node_store m' x = node_store m x)
         \<and> next_addr m \<le> next_addr m'
         \<and> (\<forall>x. x < next_addr m \<longrightarrow> shape_store m' x = shape_store m x)
         \<and> set (owned_shapes m') \<subseteq> set (owned_shapes m) \<union> {x. next_addr m \<le> x}"
proof -
  define pa where "pa = (if 0 \<le> f_parentIdx f \<and> f_parentIdx f < int (length ns)
                  then ns ! nat (f_parentIdx f) else root_node m)"
  have pat: "pa \<in> set (preorder t)"
  proof (cases "0 \<le> f_parentIdx f \<and> f_parentIdx f < int (length ns)")
    case True
    then have "nat (f_parentIdx f) < length ns" by linarith
    then have "ns ! nat (f_parentIdx f) \<in> set ns" by (rule nth_mem)
    moreover have "pa = ns ! nat (f_parentIdx f)" unfolding pa_def using True by simp
    ultimately show ?thesis using ns by auto
  next
    case False
    then have "pa = root_node m" unfolding pa_def by auto
    then show ?thesis using wf_tree_root[OF wf] by simp
  qed
  have "dom (node_store m) = set (preorder t)" using wf unfolding wf_tree_def by blast
  then obtain pn where pn: "node_store m pa = Some pn" using pat by auto
  have an: "set (all_nodes m) = set (preorder t)" using wf unfolding wf_tree_def by blast
  have lt: "\<forall>a \<in> dom (node_store m). a < next_addr m" using wf unfolding wf_tree_def by blast
  define s_m2 where "s_m2 = (let (s, m1) = load_shape (f_type f) m
         in (s, case s of None \<Rightarrow> m1 | Some sa \<Rightarrow> m1\<lparr>owned_shapes := owned_shapes m1 @ [sa]\<rparr>))"
  define s where "s = fst s_m2"
  define m2 where "m2 = snd s_m2"
  have m2: "wf_tree m2 t \<and> (\<forall>sa. s = Some sa \<longrightarrow> sa \<in> set (owned_shapes m2))
        \<and> root_node m2 = root_node m \<and> all_nodes m2 = all_nodes m \<and> node_store m2 = node_store m
        \<and> next_addr m \<le> next_addr m2
        \<and> (\<forall>x. x < next_addr m \<longrightarrow> shape_store m2 x = shape_store m x)
        \<and> set (owned_shapes m2) \<subseteq> set (owned_shapes m) \<union> {x. next_addr m \<le> x}"
    using load_shape_cases[of "f_type f" m]
  proof
    assume "load_shape (f_type f) m = (None, m)"
    then have "s = None" "m2 = m" by (simp_all add: s_def m2_def s_m2_def)
    then show ?thesis using wf by auto
  next
    assume "\<exists>sh. load_shape (f_type f) m =
         (Some (next_addr m),
          m\<lparr>shape_store := (shape_store m)(next_addr m \<mapsto> sh), next_addr := Suc (next_addr m)\<rparr>)"
    then obtain sh where "load_shape (f_type f) m =
         (Some (next_addr m),
          m\<lparr>shape_store := (shape_store m)(next_addr m \<mapsto> sh), next_addr := Suc (next_addr m)\<rparr>)"
      by blast
    then have e: "s = Some (next_addr m)"
        "m2 = m\<lparr>shape_store := (shape_store m)(next_addr m \<mapsto> sh),
               next_addr := Suc (next_addr m),
               owned_shapes := owned_shapes m @ [next_addr m]\<rparr>"
      by (simp_all add: s_def m2_def s_m2_def)
    have "wf_tree m2 t" unfolding e(2) by (rule wf_tree_alloc_shape[OF wf])
    then show ?thesis using e by auto
  qed
  then have wf2: "wf_tree m2 t" and sh2: "\<And>sa. s = Some sa \<Longrightarrow> sa \<in> set (owned_shapes m2)"
    and fr2: "root_node m2 = root_node m" "all_nodes m2 = all_nodes m" "node_store m2 = node_store m"
       "next_addr m \<le> next_addr m2" "\<forall>x. x < next_addr m \<longrightarrow> shape_store m2 x = shape_store m x"
       "set (owned_shapes m2) \<subseteq> set (owned_shapes m) \<union> {x. next_addr m \<le> x}"
    by blast+
  define a where "a = next_addr m2"
  have pn2: "node_store m2 pa = Some pn" using pn fr2(3) by simp
  have "pa < next_addr m" using lt pn by blast
  then have ne: "pa \<noteq> a" using fr2(4) by (simp add: a_def)
  have fresh: "a \<notin> set (preorder t)" using wf_tree_fresh(2)[OF wf2] by (simp add: a_def)
  define nd where "nd = (model_node_init s (Some pa))
         \<lparr>translation := translate mat4_id (vec3 (f_tx f) (f_ty f) (f_tz f)),
          scale := scale_mat mat4_id (vec3 (f_sx f) (f_sy f) (f_sz f)),
          color := vec4 (f_cr f) (f_cg f) (f_cb f) 1\<rparr>"
  define m3 where "m3 = m2\<lparr>node_store := (node_store m2)(pa \<mapsto> pn\<lparr>children := children pn @ [a]\<rparr>,
                                    a \<mapsto> model_node_init s (Some pa)),
                   next_addr := Suc a\<rparr>"
  define m' where "m' = m3\<lparr>node_store := (node_store m3)(a \<mapsto> nd), all_nodes := all_nodes m3 @ [a]\<rparr>"
  have nmn: "new_model_node s (Some pa) m2 = Some (a, m3)"
    using new_model_node_result[OF pn2, of s] ne by (simp add: a_def m3_def)
  have ll: "load_line (Some f) (m, ns) = Some (m', ns @ [a])"
  proof -
    have e1: "fst (load_shape (f_type f) m) = s"
      by (simp add: s_def s_m2_def case_prod_beta)
    have e2: "(case s of None \<Rightarrow> snd (load_shape (f_type f) m)
                    | Some sa \<Rightarrow> (snd (load_shape (f_type f) m))\<lparr>owned_shapes :=
                          owned_shapes (snd (load_shape (f_type f) m)) @ [sa]\<rparr>) = m2"
      by (simp add: m2_def s_def s_m2_def case_prod_beta)
    have e3: "(if 0 \<le> f_parentIdx f \<and> f_parentIdx f < int (length ns)
                    then ns ! nat (f_parentIdx f) else root_node m2) = pa"
      by (simp only: pa_def fr2(1))
    have e5: "node_store m3 a = Some (model_node_init s (Some pa))" by (simp add: m3_def)
    have "load_line (Some f) (m, ns)
          = Some (m3\<lparr>node_store := (node_store m3)(a \<mapsto>
                           (model_node_init s (Some pa))
                            \<lparr>translation := translate mat4_id (vec3 (f_tx f) (f_ty f) (f_tz f)),
                             scale := scale_mat mat4_id (vec3 (f_sx f) (f_sy f) (f_sz f)),
                             color := vec4 (f_cr f) (f_cg f) (f_cb f) 1\<rparr>),
                        all_nodes := all_nodes m3 @ [a]\<rparr>,
                     ns @ [a])"
      by (simp only: load_line_unfold e1 e2 e3 nmn e5 option.case prod.case)
    then show ?thesis by (simp only: m'_def nd_def)
  qed
  have w3: "wf_tree (m3\<lparr>all_nodes := all_nodes m3 @ [a]\<rparr>) (add_leaf pa a t)"
    using attach_wf[OF wf2 pat sh2 pn2, of s] by (simp add: m3_def a_def)
  have "wf_tree ((m3\<lparr>all_nodes := all_nodes m3 @ [a]\<rparr>)
          \<lparr>node_store := (node_store (m3\<lparr>all_nodes := all_nodes m3 @ [a]\<rparr>))(a \<mapsto> nd)\<rparr>)
          (add_leaf pa a t)"
    by (rule wf_tree_update_fields[OF w3, of a "model_node_init s (Some pa)"])
       (simp_all add: m3_def nd_def)
  moreover have "(m3\<lparr>all_nodes := all_nodes m3 @ [a]\<rparr>)
          \<lparr>node_store := (node_store (m3\<lparr>all_nodes := all_nodes m3 @ [a]\<rparr>))(a \<mapsto> nd)\<rparr> = m'"
    unfolding m'_def by (rule model_t.equality) simp_all
  ultimately have wf': "wf_tree m' (add_leaf pa a t)" by (simp only:)
  have sub: "set (ns @ [a]) \<subseteq> set (preorder (add_leaf pa a t))"
    using ns set_add_leaf[OF pat, of a] by auto
  have props: "root_node m' = root_node m" "a \<notin> set (all_nodes m)" "all_nodes m' = all_nodes m @ [a]"
      "node_store m' pa = Some (pn\<lparr>children := children pn @ [a]\<rparr>)"
      "node_store m' a = Some nd"
      "\<forall>x. x \<noteq> pa \<and> x \<noteq> a \<longrightarrow> node_store m' x = node_store m x"
      "next_addr m \<le> next_addr m'"
      "\<forall>x. x < next_addr m \<longrightarrow> shape_store m' x = shape_store m x"
      "set (owned_shapes m') \<subseteq> set (owned_shapes m) \<union> {x. next_addr m \<le> x}"
    using fr2 fresh an ne by (simp_all add: m'_def m3_def a_def)
  have ndp: "parent nd = Some pa" "children nd = []"
      "translation nd = translate mat4_id (vec3 (f_tx f) (f_ty f) (f_tz f))"
      "rotation nd = mat4_id"
      "scale nd = scale_mat mat4_id (vec3 (f_sx f) (f_sy f) (f_sz f))"
      "color nd = vec4 (f_cr f) (f_cg f) (f_cb f) 1"
    by (simp_all add: nd_def model_node_init_def)
  show ?thesis
    apply (rule exI[of _ m'], rule exI[of _ a], rule exI[of _ "add_leaf pa a t"],
        rule exI[of _ pa], rule exI[of _ pn], rule exI[of _ nd])
    using ll wf' sub props ndp pn ne pa_def by (simp del: fun_upd_apply)
qed

lemma load_loop_wf:
  assumes "wf_tree m t" "set ns \<subseteq> set (preorder t)"
  shows "\<exists>m' ns' t'. load_loop lns (m, ns) = Some (m', ns')
           \<and> wf_tree m' t' \<and> set ns' \<subseteq> set (preorder t')
           \<and> root_node m' = root_node m
           \<and> next_addr m \<le> next_addr m'
           \<and> (\<forall>x. x < next_addr m \<longrightarrow> shape_store m' x = shape_store m x)
           \<and> set (owned_shapes m') \<subseteq> set (owned_shapes m) \<union> {x. next_addr m \<le> x}
           \<and> length (all_nodes m') = length (all_nodes m) + length (filter (\<lambda>l. l \<noteq> None) lns)"
  using assms
proof (induction lns arbitrary: m ns t)
  case Nil
  then show ?case by auto
next
  case (Cons l lns)
  show ?case
  proof (cases l)
    case None
    then have "load_loop (l # lns) (m, ns) = load_loop lns (m, ns)" by (simp add: load_line_def)
    then show ?thesis using Cons.IH[OF Cons.prems] None by simp
  next
    case (Some f)
    obtain m1 a t1 where s: "load_line (Some f) (m, ns) = Some (m1, ns @ [a])"
        "wf_tree m1 t1" "set (ns @ [a]) \<subseteq> set (preorder t1)" "root_node m1 = root_node m"
        "all_nodes m1 = all_nodes m @ [a]"
        "next_addr m \<le> next_addr m1"
        "\<forall>x. x < next_addr m \<longrightarrow> shape_store m1 x = shape_store m x"
        "set (owned_shapes m1) \<subseteq> set (owned_shapes m) \<union> {x. next_addr m \<le> x}"
      using load_line_some[OF Cons.prems, of f] by blast
    obtain m' ns' t' where r: "load_loop lns (m1, ns @ [a]) = Some (m', ns')"
        "wf_tree m' t'" "set ns' \<subseteq> set (preorder t')" "root_node m' = root_node m1"
        "next_addr m1 \<le> next_addr m'"
        "\<forall>x. x < next_addr m1 \<longrightarrow> shape_store m' x = shape_store m1 x"
        "set (owned_shapes m') \<subseteq> set (owned_shapes m1) \<union> {x. next_addr m1 \<le> x}"
        "length (all_nodes m') = length (all_nodes m1) + length (filter (\<lambda>l. l \<noteq> None) lns)"
      using Cons.IH[OF s(2,3)] by blast
    have 1: "load_loop (l # lns) (m, ns) = Some (m', ns')" using s(1) r(1) Some by simp
    have 2: "next_addr m \<le> next_addr m'" using s(6) r(5) by simp
    have 3: "\<forall>x. x < next_addr m \<longrightarrow> shape_store m' x = shape_store m x"
      using s(6,7) r(6) by auto
    have 4: "set (owned_shapes m') \<subseteq> set (owned_shapes m) \<union> {x. next_addr m \<le> x}"
      using s(6,8) r(7) by auto
    have 5: "length (all_nodes m') = length (all_nodes m) + length (filter (\<lambda>l. l \<noteq> None) (l # lns))"
      using s(5) r(8) Some by simp
    show ?thesis using 1 2 3 4 5 r(2,3,4) s(4) by auto
  qed
qed

lemma load_loop_skip: "load_loop (filter (\<lambda>l. l \<noteq> None) lns) st = load_loop lns st"
proof (induction lns arbitrary: st)
  case Nil
  show ?case by simp
next
  case (Cons l lns)
  show ?case
  proof (cases l)
    case None
    then show ?thesis using Cons.IH by (simp add: load_line_def)
  next
    case (Some f)
    then show ?thesis using Cons.IH by (simp split: option.splits)
  qed
qed

lemma load_from_file_closed: "file_lines fs filename = None \<Longrightarrow> load_from_file m filename fs = Some (False, m)"
  by (simp add: load_from_file_def)

lemma load_from_file_open:
  assumes wf: "wf_tree m t" and op: "file_lines fs filename = Some lns"
  shows "\<exists>m' t' ns'. load_from_file m filename fs = Some (True, m')
           \<and> load_loop lns
                (m\<lparr>node_store := [next_addr m \<mapsto> model_node_init None None],
                    shape_store := shape_store m |` (- set (owned_shapes m)),
                    owned_shapes := [], all_nodes := [next_addr m],
                    root_node := next_addr m, next_addr := Suc (next_addr m)\<rparr>, [next_addr m])
               = Some (m', ns')
           \<and> wf_tree m' t' \<and> root_node m' = next_addr m
           \<and> (\<forall>s \<in> set (owned_shapes m). shape_store m' s = None \<and> s \<notin> set (owned_shapes m'))
           \<and> length (all_nodes m') = 1 + length (filter (\<lambda>l. l \<noteq> None) lns)"
proof -
  let ?m3 = "m\<lparr>node_store := [next_addr m \<mapsto> model_node_init None None],
                    shape_store := shape_store m |` (- set (owned_shapes m)),
                    owned_shapes := [], all_nodes := [next_addr m],
                    root_node := next_addr m, next_addr := Suc (next_addr m)\<rparr>"
  have w3: "wf_tree ?m3 (Tree (next_addr m) [])" by (rule load_start_wf[OF wf])
  obtain m' ns' t' where r: "load_loop lns (?m3, [next_addr m]) = Some (m', ns')"
      "wf_tree m' t'" "root_node m' = root_node ?m3"
      "next_addr ?m3 \<le> next_addr m'"
      "\<forall>x. x < next_addr ?m3 \<longrightarrow> shape_store m' x = shape_store ?m3 x"
      "set (owned_shapes m') \<subseteq> set (owned_shapes ?m3) \<union> {x. next_addr ?m3 \<le> x}"
      "length (all_nodes m') = length (all_nodes ?m3) + length (filter (\<lambda>l. l \<noteq> None) lns)"
    using load_loop_wf[OF w3, of "[next_addr m]" lns] by auto
  have "load_from_file m filename fs
        = (case load_loop lns (?m3, [next_addr m]) of
             None \<Rightarrow> None | Some (m4, nodes) \<Rightarrow> Some (True, m4))"
  proof -
    let ?m1 = "m\<lparr>node_store := Map.empty,
                  shape_store := shape_store m |` (- set (owned_shapes m)),
                  owned_shapes := [], all_nodes := []\<rparr>"
    have c: "cleanup m = Some ?m1" by (rule cleanup_wf[OF wf])
    have f: "fst (alloc_node (model_node_init None None) ?m1) = next_addr m"
      by (simp add: alloc_node_def)
    have st: "(snd (alloc_node (model_node_init None None) ?m1))
                \<lparr>root_node := next_addr m,
                 all_nodes := all_nodes (snd (alloc_node (model_node_init None None) ?m1)) @ [next_addr m]\<rparr>
              = ?m3"
      by (rule model_t.equality) (simp_all add: alloc_node_def)
    show ?thesis
      by (simp only: load_from_file_def op c option.case Let_def case_prod_beta f st)
  qed
  then have l: "load_from_file m filename fs = Some (True, m')"
    by (simp only: r(1) option.case prod.case)
  have old: "\<forall>s \<in> set (owned_shapes m). shape_store m' s = None \<and> s \<notin> set (owned_shapes m')"
  proof
    fix s assume s: "s \<in> set (owned_shapes m)"
    have "s \<in> dom (shape_store m)" using wf s unfolding wf_tree_def by blast
    then have lt: "s < next_addr m" using wf unfolding wf_tree_def by blast
    then have "shape_store m' s = shape_store ?m3 s" using r(5) by simp
    then have "shape_store m' s = None" using s by (simp add: restrict_map_def)
    moreover have "s \<notin> set (owned_shapes m')" using r(6) lt by auto
    ultimately show "shape_store m' s = None \<and> s \<notin> set (owned_shapes m')" by simp
  qed
  show ?thesis using l r(1,2,3,7) old by auto
qed

lemma load_from_file_preserves:
  assumes "wf_model m" "load_from_file m filename fs = Some (b, m')"
  shows "wf_model m'"
proof (cases "file_lines fs filename")
  case None
  then show ?thesis using assms load_from_file_closed[OF None, of m] by simp
next
  case (Some lns)
  obtain t where "wf_tree m t" using assms(1) unfolding wf_model_def by blast
  then show ?thesis using load_from_file_open[OF _ Some, of m t] assms(2) unfolding wf_model_def by auto
qed


section \<open>The extraction chain on text\<close>

lemma dropWhile_append_keep:
  "dropWhile P xs \<noteq> [] \<Longrightarrow> dropWhile P (xs @ ys) = dropWhile P xs @ ys"
  by (induction xs) auto

lemma read_sign_append:
  "u \<noteq> [] \<Longrightarrow> read_sign (u @ w) = (fst (read_sign u), snd (read_sign u) @ w)"
  by (cases u) (simp_all add: read_sign_def)

lemma extract_int_append:
  assumes "extract_int s = Some (v, r)" "\<not> is_digit c"
  shows "extract_int (s @ c # t) = Some (v, r @ c # t)"
proof -
  obtain neg s1 where rs: "read_sign (dropWhile is_space s) = (neg, s1)" by (cases "read_sign (dropWhile is_space s)")
  have ds: "takeWhile is_digit s1 \<noteq> []"
    using assms(1) rs by (auto simp: extract_int_def Let_def split: if_splits)
  have ne: "dropWhile is_space s \<noteq> []"
    using ds rs by (auto simp: read_sign_def simp del: dropWhile_eq_Nil_conv)
  have "read_sign (dropWhile is_space (s @ c # t)) = (neg, s1 @ c # t)"
    using rs by (simp add: dropWhile_append_keep[OF ne] read_sign_append[OF ne])
  then show ?thesis
    using assms rs by (auto simp: extract_int_def Let_def takeWhile_tail dropWhile_append3 split: if_splits)
qed

lemma read_exponent_append:
  assumes "read_exponent s = Some (e, r)" "c \<notin> set ''0123456789.eE''"
  shows "read_exponent (s @ c # t) = Some (e, r @ c # t)"
proof (cases s)
  case Nil
  then show ?thesis using assms by (auto simp: read_exponent_def)
next
  case (Cons d u)
  show ?thesis
  proof (cases "d = CHR ''e'' \<or> d = CHR ''E''")
    case False
    then show ?thesis using assms Cons by (auto simp: read_exponent_def)
  next
    case True
    obtain neg s1 where rs: "read_sign u = (neg, s1)" by (cases "read_sign u")
    have ds: "takeWhile is_digit s1 \<noteq> []"
      using assms(1) Cons True rs by (auto simp: read_exponent_def Let_def split: if_splits)
    then have ne: "u \<noteq> []" using rs by (auto simp: read_sign_def)
    have nd: "\<not> is_digit c" using assms(2) by (simp add: is_digit_def)
    have "read_sign (u @ c # t) = (neg, s1 @ c # t)"
      using rs by (simp add: read_sign_append[OF ne])
    then show ?thesis
      using assms(1) Cons True rs nd
      by (auto simp: read_exponent_def Let_def takeWhile_tail dropWhile_append3 split: if_splits)
  qed
qed

lemma extract_float_append:
  assumes "extract_float s = Some (v, r)" "c \<notin> set ''0123456789.eE''"
  shows "extract_float (s @ c # t) = Some (v, r @ c # t)"
proof -
  have nd: "\<not> is_digit c" and npt: "c \<noteq> CHR ''.''" using assms(2) by (auto simp: is_digit_def)
  obtain neg s1 where rs: "read_sign (dropWhile is_space s) = (neg, s1)"
    by (cases "read_sign (dropWhile is_space s)")
  let ?ip = "takeWhile is_digit s1"
  let ?r1 = "dropWhile is_digit s1"
  obtain fp r2 where fr: "(case ?r1 of [] \<Rightarrow> ([], [])
                      | c # r \<Rightarrow> if c = CHR ''.'' then (takeWhile is_digit r, dropWhile is_digit r)
                                 else ([], ?r1)) = (fp, r2)"
    by (cases "(case ?r1 of [] \<Rightarrow> ([], [])
                      | c # r \<Rightarrow> if c = CHR ''.'' then (takeWhile is_digit r, dropWhile is_digit r)
                                 else ([]::string, ?r1))")
  have ef: "extract_float s =
      (if ?ip = [] \<and> fp = [] then None
       else case read_exponent r2 of None \<Rightarrow> None
            | Some (e, rest) \<Rightarrow>
                (let a = (if 0 \<le> e
                          then (of_int (digits_value ?ip) + of_int (digits_value fp) / 10 ^ length fp) * 10 ^ nat e
                          else (of_int (digits_value ?ip) + of_int (digits_value fp) / 10 ^ length fp) / 10 ^ nat (- e))
                 in if float_overflow \<le> a then None else Some (if neg then - a else a, rest)))"
    unfolding extract_float_def rs by (simp only: Let_def prod.case fr)
  have ok: "\<not> (?ip = [] \<and> fp = [])" using assms(1) unfolding ef by (auto split: if_splits)
  obtain e rest where re: "read_exponent r2 = Some (e, rest)"
    using assms(1) ok unfolding ef by (auto split: if_splits option.splits)
  have s1ne: "s1 \<noteq> []"
  proof
    assume "s1 = []"
    then show False using ok fr by simp
  qed
  then have ne: "dropWhile is_space s \<noteq> []"
    using rs by (auto simp: read_sign_def simp del: dropWhile_eq_Nil_conv)
  have rs': "read_sign (dropWhile is_space (s @ c # t)) = (neg, s1 @ c # t)"
    using rs by (simp add: dropWhile_append_keep[OF ne] read_sign_append[OF ne])
  have tk: "takeWhile is_digit (s1 @ c # t) = ?ip" "dropWhile is_digit (s1 @ c # t) = ?r1 @ c # t"
    using nd by (simp_all add: takeWhile_tail dropWhile_append3)
  have fr': "(case ?r1 @ c # t of [] \<Rightarrow> ([], [])
                      | d # r \<Rightarrow> if d = CHR ''.'' then (takeWhile is_digit r, dropWhile is_digit r)
                                 else ([], ?r1 @ c # t)) = (fp, r2 @ c # t)"
  proof (cases ?r1)
    case Nil
    then show ?thesis using fr nd npt by (simp only: Nil) auto
  next
    case (Cons d u)
    then show ?thesis using fr nd npt
      by (simp only: Cons) (auto simp: takeWhile_tail dropWhile_append3 split: if_splits)
  qed
  have re': "read_exponent (r2 @ c # t) = Some (e, rest @ c # t)"
    using read_exponent_append[OF re assms(2)] .
  have ef': "extract_float (s @ c # t) =
      (if ?ip = [] \<and> fp = [] then None
       else case read_exponent (r2 @ c # t) of None \<Rightarrow> None
            | Some (e, rest) \<Rightarrow>
                (let a = (if 0 \<le> e
                          then (of_int (digits_value ?ip) + of_int (digits_value fp) / 10 ^ length fp) * 10 ^ nat e
                          else (of_int (digits_value ?ip) + of_int (digits_value fp) / 10 ^ length fp) / 10 ^ nat (- e))
                 in if float_overflow \<le> a then None else Some (if neg then - a else a, rest)))"
    unfolding extract_float_def rs' by (simp only: Let_def prod.case tk fr')
  show ?thesis using assms(1) ok unfolding ef ef' re re' by (auto simp: Let_def split: if_splits)
qed

lemma extract_floats_append:
  assumes "extract_floats k s = Some (vs, r)" "c \<notin> set ''0123456789.eE''"
  shows "extract_floats k (s @ c # t) = Some (vs, r @ c # t)"
  using assms(1)
proof (induction k arbitrary: s vs)
  case 0
  then show ?case by simp
next
  case (Suc k)
  then obtain v r1 vs1 where a: "extract_float s = Some (v, r1)" "extract_floats k r1 = Some (vs1, r)"
      "vs = v # vs1"
    by (auto split: option.splits)
  show ?case using extract_float_append[OF a(1) assms(2), of t] Suc.IH[OF a(2)] a(3) by simp
qed

lemma parse_line_append:
  assumes "parse_line s = Some f" "c \<notin> set ''0123456789.eE''"
  shows "parse_line (s @ c # t) = Some f"
proof -
  have nd: "\<not> is_digit c" using assms(2) by (simp add: is_digit_def)
  obtain ty s1 pidx s2 vs s3 where a: "extract_int s = Some (ty, s1)" "extract_int s1 = Some (pidx, s2)"
     "extract_floats 13 s2 = Some (vs, s3)"
    using assms(1) by (auto simp: parse_line_def split: option.splits)
  show ?thesis
    using assms(1) a extract_int_append[OF a(1) nd, of t] extract_int_append[OF a(2) nd, of t]
      extract_floats_append[OF a(3) assms(2), of t]
    by (simp add: parse_line_def)
qed


lemma count_dropWhile: "length (filter P (dropWhile Q xs)) \<le> length (filter P xs)"
  by (induction xs) auto

lemma count_take_drop:
  "length (filter P xs) = length (takeWhile P xs) + length (filter P (dropWhile P xs))"
  by (induction xs) auto

lemma count_read_sign: "length (filter P (snd (read_sign u))) \<le> length (filter P u)"
  by (cases u) (auto simp: read_sign_def)

lemma extract_int_digits:
  assumes "extract_int s = Some (v, r)"
  shows "Suc (length (filter is_digit r)) \<le> length (filter is_digit s)"
proof -
  obtain neg s1 where rs: "read_sign (dropWhile is_space s) = (neg, s1)"
    by (cases "read_sign (dropWhile is_space s)")
  have ds: "takeWhile is_digit s1 \<noteq> []" and r: "r = dropWhile is_digit s1"
    using assms rs by (auto simp: extract_int_def Let_def split: if_splits)
  have "length (filter is_digit s1) \<le> length (filter is_digit (dropWhile is_space s))"
    using count_read_sign[of is_digit "dropWhile is_space s"] rs by simp
  also have "\<dots> \<le> length (filter is_digit s)" by (rule count_dropWhile)
  finally have "length (filter is_digit s1) \<le> length (filter is_digit s)" .
  moreover have "Suc (length (filter is_digit r)) \<le> length (filter is_digit s1)"
    using count_take_drop[of is_digit s1] ds r by (cases "takeWhile is_digit s1") simp_all
  ultimately show ?thesis by simp
qed

lemma read_exponent_digits:
  assumes "read_exponent s = Some (e, r)"
  shows "length (filter is_digit r) \<le> length (filter is_digit s)"
proof (cases s)
  case Nil
  then show ?thesis using assms by (simp add: read_exponent_def)
next
  case (Cons d u)
  show ?thesis
  proof (cases "d = CHR ''e'' \<or> d = CHR ''E''")
    case False
    then show ?thesis using assms Cons by (auto simp: read_exponent_def)
  next
    case True
    obtain neg s1 where rs: "read_sign u = (neg, s1)" by (cases "read_sign u")
    have r: "r = dropWhile is_digit s1"
      using assms Cons True rs by (auto simp: read_exponent_def Let_def split: if_splits)
    have "length (filter is_digit r) \<le> length (filter is_digit s1)"
      unfolding r by (rule count_dropWhile)
    also have "\<dots> \<le> length (filter is_digit u)"
      using count_read_sign[of is_digit u] rs by simp
    also have "\<dots> \<le> length (filter is_digit s)" by (simp add: Cons)
    finally show ?thesis .
  qed
qed

lemma extract_float_digits:
  assumes "extract_float s = Some (v, r)"
  shows "Suc (length (filter is_digit r)) \<le> length (filter is_digit s)"
proof -
  obtain neg s1 where rs: "read_sign (dropWhile is_space s) = (neg, s1)"
    by (cases "read_sign (dropWhile is_space s)")
  let ?ip = "takeWhile is_digit s1"
  let ?r1 = "dropWhile is_digit s1"
  obtain fp r2 where fr: "(case ?r1 of [] \<Rightarrow> ([], [])
                      | c # r \<Rightarrow> if c = CHR ''.'' then (takeWhile is_digit r, dropWhile is_digit r)
                                 else ([], ?r1)) = (fp, r2)"
    by (cases "(case ?r1 of [] \<Rightarrow> ([], [])
                      | c # r \<Rightarrow> if c = CHR ''.'' then (takeWhile is_digit r, dropWhile is_digit r)
                                 else ([]::string, ?r1))")
  have ef: "extract_float s =
      (if ?ip = [] \<and> fp = [] then None
       else case read_exponent r2 of None \<Rightarrow> None
            | Some (e, rest) \<Rightarrow>
                (let a = (if 0 \<le> e
                          then (of_int (digits_value ?ip) + of_int (digits_value fp) / 10 ^ length fp) * 10 ^ nat e
                          else (of_int (digits_value ?ip) + of_int (digits_value fp) / 10 ^ length fp) / 10 ^ nat (- e))
                 in if float_overflow \<le> a then None else Some (if neg then - a else a, rest)))"
    unfolding extract_float_def rs by (simp only: Let_def prod.case fr)
  have ok: "\<not> (?ip = [] \<and> fp = [])" using assms unfolding ef by (auto split: if_splits)
  obtain e where re: "read_exponent r2 = Some (e, r)"
    using assms ok unfolding ef by (auto simp: Let_def split: if_splits option.splits)
  have c1: "length (filter is_digit ?r1) = length fp + length (filter is_digit r2)"
  proof (cases ?r1)
    case Nil
    then show ?thesis using fr by (simp only: Nil) auto
  next
    case (Cons d u)
    show ?thesis
    proof (cases "d = CHR ''.''")
      case True
      then have "fp = takeWhile is_digit u" "r2 = dropWhile is_digit u"
        using fr by (simp_all only: Cons) auto
      then show ?thesis using count_take_drop[of is_digit u] True
        by (simp only: Cons) (simp add: is_digit_def)
    next
      case False
      then have "fp = []" "r2 = ?r1" using fr by (simp_all only: Cons) auto
      then show ?thesis by simp
    qed
  qed
  have "length (filter is_digit s1) = length ?ip + length fp + length (filter is_digit r2)"
    using count_take_drop[of is_digit s1] c1 by simp
  moreover have "Suc 0 \<le> length ?ip + length fp"
    using ok by (cases ?ip; cases fp) simp_all
  moreover have "length (filter is_digit r) \<le> length (filter is_digit r2)"
    by (rule read_exponent_digits[OF re])
  ultimately have "Suc (length (filter is_digit r)) \<le> length (filter is_digit s1)" by linarith
  also have "\<dots> \<le> length (filter is_digit (dropWhile is_space s))"
    using count_read_sign[of is_digit "dropWhile is_space s"] rs by simp
  also have "\<dots> \<le> length (filter is_digit s)" by (rule count_dropWhile)
  finally show ?thesis .
qed

lemma extract_floats_digits:
  "extract_floats k s = Some (vs, r) \<Longrightarrow> k + length (filter is_digit r) \<le> length (filter is_digit s)"
proof (induction k arbitrary: s vs)
  case 0
  then show ?case by simp
next
  case (Suc k)
  then obtain v r1 vs1 where a: "extract_float s = Some (v, r1)" "extract_floats k r1 = Some (vs1, r)"
    by (auto split: option.splits)
  show ?case using extract_float_digits[OF a(1)] Suc.IH[OF a(2)] by simp
qed

lemma parse_line_digits:
  assumes "length (filter is_digit s) < 15"
  shows "parse_line s = None"
proof (rule ccontr)
  assume "parse_line s \<noteq> None"
  then obtain ty s1 pidx s2 vs s3 where a: "extract_int s = Some (ty, s1)" "extract_int s1 = Some (pidx, s2)"
     "extract_floats 13 s2 = Some (vs, s3)"
    by (auto simp: parse_line_def split: option.splits)
  show False
    using extract_int_digits[OF a(1)] extract_int_digits[OF a(2)] extract_floats_digits[OF a(3)] assms
    by simp
qed

lemma filter_parse_line:
  "filter (\<lambda>l. l \<noteq> None) (map parse_line txs) = map parse_line (filter (\<lambda>s. parse_line s \<noteq> None) txs)"
  by (induction txs) auto

lemma load_loop_append:
  "load_loop (xs @ ys) st = (case load_loop xs st of None \<Rightarrow> None | Some st' \<Rightarrow> load_loop ys st')"
  by (induction xs arbitrary: st) (auto split: option.splits)

lemma load_loop_track:
  assumes "wf_tree m t"
  shows "\<exists>m' t' new. load_loop lns (m, all_nodes m) = Some (m', all_nodes m')
           \<and> wf_tree m' t' \<and> root_node m' = root_node m
           \<and> all_nodes m' = all_nodes m @ new
           \<and> length new = length (filter (\<lambda>l. l \<noteq> None) lns)
           \<and> (\<forall>x nd. x \<in> set (all_nodes m) \<and> node_store m x = Some nd \<longrightarrow>
                 (\<exists>nd'. node_store m' x = Some nd' \<and> parent nd' = parent nd
                    \<and> set (children nd) \<subseteq> set (children nd')))"
  using assms
proof (induction lns arbitrary: m t)
  case Nil
  then show ?case by auto
next
  case (Cons l lns)
  show ?case
  proof (cases l)
    case None
    then have "load_loop (l # lns) (m, all_nodes m) = load_loop lns (m, all_nodes m)"
      by (simp add: load_line_def)
    then show ?thesis using Cons.IH[OF Cons.prems] None by simp
  next
    case (Some f)
    have an: "set (all_nodes m) \<subseteq> set (preorder t)" using Cons.prems unfolding wf_tree_def by blast
    obtain m1 a t1 pa pn nd1 where s: "load_line (Some f) (m, all_nodes m) = Some (m1, all_nodes m @ [a])"
        "wf_tree m1 t1" "root_node m1 = root_node m"
        "a \<notin> set (all_nodes m)" "all_nodes m1 = all_nodes m @ [a]"
        "node_store m pa = Some pn"
        "node_store m1 pa = Some (pn\<lparr>children := children pn @ [a]\<rparr>)"
        "\<forall>x. x \<noteq> pa \<and> x \<noteq> a \<longrightarrow> node_store m1 x = node_store m x"
      using load_line_some[OF Cons.prems an, of f] by blast
    have keep1: "\<exists>nd'. node_store m1 x = Some nd' \<and> parent nd' = parent nd
                    \<and> set (children nd) \<subseteq> set (children nd')"
      if "x \<in> set (all_nodes m)" "node_store m x = Some nd" for x nd
    proof (cases "x = pa")
      case True
      then show ?thesis using s(6,7) that(2) by auto
    next
      case False
      then have "node_store m1 x = node_store m x" using s(4,8) that(1) by auto
      then show ?thesis using that(2) by simp
    qed
    obtain m' t' new where r: "load_loop lns (m1, all_nodes m1) = Some (m', all_nodes m')"
        "wf_tree m' t'" "root_node m' = root_node m1"
        "all_nodes m' = all_nodes m1 @ new"
        "length new = length (filter (\<lambda>l. l \<noteq> None) lns)"
        "\<forall>x nd. x \<in> set (all_nodes m1) \<and> node_store m1 x = Some nd \<longrightarrow>
                 (\<exists>nd'. node_store m' x = Some nd' \<and> parent nd' = parent nd
                    \<and> set (children nd) \<subseteq> set (children nd'))"
      using Cons.IH[OF s(2)] by blast
    have 1: "load_loop (l # lns) (m, all_nodes m) = Some (m', all_nodes m')"
      using s(1,5) r(1) Some by simp
    have 2: "all_nodes m' = all_nodes m @ (a # new)" using s(5) r(4) by simp
    have 3: "length (a # new) = length (filter (\<lambda>l. l \<noteq> None) (l # lns))" using r(5) Some by simp
    have 4: "\<forall>x nd. x \<in> set (all_nodes m) \<and> node_store m x = Some nd \<longrightarrow>
                 (\<exists>nd'. node_store m' x = Some nd' \<and> parent nd' = parent nd
                    \<and> set (children nd) \<subseteq> set (children nd'))"
    proof (intro allI impI)
      fix x nd assume h: "x \<in> set (all_nodes m) \<and> node_store m x = Some nd"
      then obtain nd1 where n1: "node_store m1 x = Some nd1" "parent nd1 = parent nd"
          "set (children nd) \<subseteq> set (children nd1)"
        using keep1 by blast
      have "x \<in> set (all_nodes m1)" using h s(5) by simp
      then obtain nd' where "node_store m' x = Some nd'" "parent nd' = parent nd1"
          "set (children nd1) \<subseteq> set (children nd')"
        using r(6) n1(1) by blast
      then show "\<exists>nd'. node_store m' x = Some nd' \<and> parent nd' = parent nd
                    \<and> set (children nd) \<subseteq> set (children nd')"
        using n1(2,3) by auto
    qed
    show ?thesis
      using 1 2 3 4 r(2,3) s(3)
      by (intro exI[of _ m'] exI[of _ t'] exI[of _ "a # new"]) simp
  qed
qed

lemma load_bad_parent_file:
  assumes wf: "wf_tree m t"
    and fl: "file_lines fs filename = Some (pre @ Some f # post)"
    and bad: "f_parentIdx f < 0 \<or> 1 + int (length (filter (\<lambda>l. l \<noteq> None) pre)) \<le> f_parentIdx f"
  shows "\<exists>m' nd rn. load_from_file m filename fs = Some (True, m')
           \<and> length (all_nodes m') = 2 + length (filter (\<lambda>l. l \<noteq> None) pre)
                                        + length (filter (\<lambda>l. l \<noteq> None) post)
           \<and> hd (all_nodes m') = root_node m'
           \<and> node_store m' (all_nodes m' ! (1 + length (filter (\<lambda>l. l \<noteq> None) pre))) = Some nd
           \<and> parent nd = Some (root_node m')
           \<and> node_store m' (root_node m') = Some rn
           \<and> all_nodes m' ! (1 + length (filter (\<lambda>l. l \<noteq> None) pre)) \<in> set (children rn)"
proof -
  let ?k = "length (filter (\<lambda>l. l \<noteq> None) pre)"
  let ?r = "next_addr m"
  let ?m3 = "m\<lparr>node_store := [next_addr m \<mapsto> model_node_init None None],
                    shape_store := shape_store m |` (- set (owned_shapes m)),
                    owned_shapes := [], all_nodes := [next_addr m],
                    root_node := next_addr m, next_addr := Suc (next_addr m)\<rparr>"
  have w3: "wf_tree ?m3 (Tree ?r [])" by (rule load_start_wf[OF wf])
  have a3: "all_nodes ?m3 = [?r]" "root_node ?m3 = ?r" by simp_all
  obtain m1 t1 new1 where p1: "load_loop pre (?m3, all_nodes ?m3) = Some (m1, all_nodes m1)"
      "wf_tree m1 t1" "root_node m1 = root_node ?m3" "all_nodes m1 = all_nodes ?m3 @ new1"
      "length new1 = ?k"
    using load_loop_track[OF w3, of pre] by blast
  have an1: "set (all_nodes m1) \<subseteq> set (preorder t1)" using p1(2) unfolding wf_tree_def by blast
  have len1: "int (length (all_nodes m1)) = 1 + int ?k" using p1(4,5) by simp
  have pa: "(if 0 \<le> f_parentIdx f \<and> f_parentIdx f < int (length (all_nodes m1))
                  then all_nodes m1 ! nat (f_parentIdx f) else root_node m1) = ?r"
    using bad p1(3) unfolding len1 by auto
  obtain m2 a t2 pn nd2 where p2: "load_line (Some f) (m1, all_nodes m1) = Some (m2, all_nodes m1 @ [a])"
      "wf_tree m2 t2" "root_node m2 = root_node m1" "all_nodes m2 = all_nodes m1 @ [a]"
      "?r \<noteq> a"
      "node_store m1 ?r = Some pn"
      "node_store m2 ?r = Some (pn\<lparr>children := children pn @ [a]\<rparr>)"
      "node_store m2 a = Some nd2" "parent nd2 = Some ?r"
    using load_line_some[OF p1(2) an1, of f] unfolding pa by blast
  obtain m' t' new3 where p3: "load_loop post (m2, all_nodes m2) = Some (m', all_nodes m')"
      "root_node m' = root_node m2" "all_nodes m' = all_nodes m2 @ new3"
      "length new3 = length (filter (\<lambda>l. l \<noteq> None) post)"
      "\<forall>x nd. x \<in> set (all_nodes m2) \<and> node_store m2 x = Some nd \<longrightarrow>
                 (\<exists>nd'. node_store m' x = Some nd' \<and> parent nd' = parent nd
                    \<and> set (children nd) \<subseteq> set (children nd'))"
    using load_loop_track[OF p2(2), of post] by blast
  have whole: "load_loop (pre @ Some f # post) (?m3, [?r]) = Some (m', all_nodes m')"
    using p1(1) p2(1,4) p3(1) by (simp add: load_loop_append)
  obtain m'' ns'' where l: "load_from_file m filename fs = Some (True, m'')"
      "load_loop (pre @ Some f # post) (?m3, [?r]) = Some (m'', ns'')"
    using load_from_file_open[OF wf fl] by blast
  then have lf: "load_from_file m filename fs = Some (True, m')" using whole by simp
  have all: "all_nodes m' = ?r # new1 @ a # new3" using p1(4) p2(4) p3(3) by simp
  have root: "root_node m' = ?r" using p3(2) p2(3) p1(3) by simp
  have nth: "all_nodes m' ! (1 + ?k) = a"
    using all p1(5) by (simp add: nth_append)
  have ain: "a \<in> set (all_nodes m2)" "?r \<in> set (all_nodes m2)" using p2(4) p1(4) by simp_all
  obtain nd where nd: "node_store m' a = Some nd" "parent nd = Some ?r"
    using p3(5) ain(1) p2(8,9) by fastforce
  obtain rn where rn: "node_store m' ?r = Some rn" "a \<in> set (children rn)"
    using p3(5) ain(2) p2(7) by fastforce
  have len: "length (all_nodes m') = 2 + ?k + length (filter (\<lambda>l. l \<noteq> None) post)"
    using all p1(5) p3(4) by simp
  have hd: "hd (all_nodes m') = root_node m'" using all root by simp
  have n1: "node_store m' (all_nodes m' ! (1 + ?k)) = Some nd" using nd(1) nth by simp
  have n2: "all_nodes m' ! (1 + ?k) \<in> set (children rn)" using rn(2) nth by simp
  have n3: "node_store m' (root_node m') = Some rn" using rn(1) root by simp
  have n4: "parent nd = Some (root_node m')" using nd(2) root by simp
  show ?thesis using lf len hd n1 n2 n3 n4 by blast
qed


section \<open>Registry invariant and load results\<close>

lemma reachable_wf: "reachable_model m \<Longrightarrow> wf_model m"
proof (induction rule: reachable_model.induct)
  case fresh
  show ?case by (rule wf_model_ctor)
next
  case (sphere m lvl p n m')
  then show ?case using create_with_preserves by (simp add: create_with_eqs)
next
  case (cylinder m lvl p n m')
  then show ?case using create_with_preserves by (simp add: create_with_eqs)
next
  case (box m p n m')
  then show ?case using create_with_preserves by (simp add: create_with_eqs)
next
  case (cone m lvl p n m')
  then show ?case using create_with_preserves by (simp add: create_with_eqs)
next
  case (remove m node m')
  then show ?case using remove_node_preserves by blast
next
  case (load m filename fs b m')
  then show ?case using load_from_file_preserves by blast
qed

lemma wf_all_nodes:
  assumes "wf_model m"
  shows "distinct (all_nodes m) \<and> set (all_nodes m) = reachable_nodes m"
proof -
  obtain t where t: "wf_tree m t" using assms unfolding wf_model_def by blast
  then have w: "rt t = root_node m" "shaped (node_store m) None t"
      "set (all_nodes m) = set (preorder t)" "distinct (all_nodes m)"
    unfolding wf_tree_def by blast+
  have "reachable_nodes m = set (preorder t)"
    using tree_reach[OF w(2)] w(1) by (simp add: reachable_nodes_def)
  then show ?thesis using w(3,4) by simp
qed

text \<open>
  Claim C6. After any sequence of create, remove and load operations on a fresh graph,
  \<open>all_nodes\<close> holds exactly the nodes that can be reached from the root along child
  pointers, each once.
\<close>

theorem all_nodes_exactly_reachable:
  "reachable_model m \<Longrightarrow> distinct (all_nodes m) \<and> set (all_nodes m) = reachable_nodes m"
  using wf_all_nodes[OF reachable_wf] .

lemma two_boxes_reachable: "reachable_model two_boxes"
  using reachable_model.box[OF reachable_model.box[OF reachable_model.fresh one_box_eq(1)] two_boxes_eq(1)] .

text \<open>
  The graph with a box under the root and a second box under the first.
\<close>

theorem all_nodes_exactly_reachable_witness:
  "reachable_model two_boxes
   \<and> distinct (all_nodes two_boxes) \<and> set (all_nodes two_boxes) = reachable_nodes two_boxes"
  using all_nodes_exactly_reachable[OF two_boxes_reachable] two_boxes_reachable by simp

lemma load_from_file_outcome:
  "wf_model m \<Longrightarrow>
   \<exists>b m'. load_from_file m filename fs = Some (b, m')
      \<and> (b = False \<longleftrightarrow> file_lines fs filename = None)
      \<and> (b = False \<longrightarrow> m' = m)
      \<and> (\<forall>lns. file_lines fs filename = Some lns \<longrightarrow>
            load_from_file m filename
              (fs\<lparr>file_lines := (file_lines fs)(filename \<mapsto> filter (\<lambda>l. l \<noteq> None) lns)\<rparr>)
              = Some (True, m')
          \<and> length (all_nodes m') = 1 + length (filter (\<lambda>l. l \<noteq> None) lns))"
proof -
  assume "wf_model m"
  then obtain t where t: "wf_tree m t" unfolding wf_model_def by blast
  show ?thesis
  proof (cases "file_lines fs filename")
    case None
    then show ?thesis using load_from_file_closed[OF None, of m]
      by (intro exI[of _ False] exI[of _ m]) simp
  next
    case (Some lns)
    let ?fs' = "fs\<lparr>file_lines := (file_lines fs)(filename \<mapsto> filter (\<lambda>l. l \<noteq> None) lns)\<rparr>"
    let ?st = "(m\<lparr>node_store := [next_addr m \<mapsto> model_node_init None None],
                    shape_store := shape_store m |` (- set (owned_shapes m)),
                    owned_shapes := [], all_nodes := [next_addr m],
                    root_node := next_addr m, next_addr := Suc (next_addr m)\<rparr>, [next_addr m])"
    obtain m' ns' where a: "load_from_file m filename fs = Some (True, m')"
        "load_loop lns ?st = Some (m', ns')"
        "length (all_nodes m') = 1 + length (filter (\<lambda>l. l \<noteq> None) lns)"
      using load_from_file_open[OF t Some] by blast
    have "file_lines ?fs' filename = Some (filter (\<lambda>l. l \<noteq> None) lns)" by simp
    then obtain m'' ns'' where b: "load_from_file m filename ?fs' = Some (True, m'')"
        "load_loop (filter (\<lambda>l. l \<noteq> None) lns) ?st = Some (m'', ns'')"
      using load_from_file_open[OF t, of ?fs' filename] by blast
    have "load_loop lns ?st = Some (m'', ns'')" using b(2) by (simp only: load_loop_skip)
    then have "m'' = m'" using a(2) by simp
    then show ?thesis using a(1,3) b(1) Some
      by (intro exI[of _ True] exI[of _ m']) simp
  qed
qed


lemma parse_box_line:
  "parse_line ''2 0 0 0 0 0 0 0 1 1 1 1 1 1 1'' = Some (box_line 0)"
  "parse_line ''2 0 0 0 0 0 0 0 1 1 1 1 1 1 1 9'' = Some (box_line 0)"
  "parse_line ''2 0 0 0 0 0 0 0 1 1 1 1 1 1 1 extra'' = Some (box_line 0)"
  "parse_line ''2 0.5 0 0 0 0 0 1 1 1 1 1 1 1'' = Some ((box_line 0)\<lparr>f_tx := 1 / 2\<rparr>)"
  "parse_line ''garbage'' = None"
  "parse_line ''2 0 0'' = None"
  by code_simp+

lemma count_fields:
  "length (fields ''2 0 0 0 0 0 0 0 1 1 1 1 1 1 1 9'') = 16"
  "length (fields ''2 0.5 0 0 0 0 0 1 1 1 1 1 1 1'') = 14"
  "fields ''2 0.5 0 0 0 0 0 1 1 1 1 1 1 1'' ! 1 = ''0.5''"
  by code_simp+

lemma load_text_file:
  assumes "wf_model m"
  shows "\<exists>m'. load_from_file m filename (text_file filename txs) = Some (True, m')
           \<and> length (all_nodes m') = 1 + length (filter (\<lambda>s. parse_line s \<noteq> None) txs)"
proof -
  have fl: "file_lines (text_file filename txs) filename = Some (map parse_line txs)"
    by (simp add: text_file_def)
  obtain b m' where o: "load_from_file m filename (text_file filename txs) = Some (b, m')"
      "(b = False) = (file_lines (text_file filename txs) filename = None)"
      "\<forall>lns. file_lines (text_file filename txs) filename = Some lns \<longrightarrow>
            load_from_file m filename
              ((text_file filename txs)\<lparr>file_lines := (file_lines (text_file filename txs))
                  (filename \<mapsto> filter (\<lambda>l. l \<noteq> None) lns)\<rparr>)
              = Some (True, m')
          \<and> length (all_nodes m') = 1 + length (filter (\<lambda>l. l \<noteq> None) lns)"
    using load_from_file_outcome[OF assms, of filename "text_file filename txs"] by auto
  have "b = True" using o(2) fl by simp
  moreover have "length (all_nodes m') = 1 + length (filter (\<lambda>l. l \<noteq> None) (map parse_line txs))"
    using o(3)[rule_format, OF fl] by simp
  then have "length (all_nodes m') = 1 + length (filter (\<lambda>s. parse_line s \<noteq> None) txs)"
    by (simp only: filter_parse_line length_map)
  ultimately show ?thesis using o(1) by simp
qed

text \<open>
  Claim C7 as stated does not hold: a line with a wrong field count, or with a field that is
  not a number of its type, is not always skipped. The line
  \<^verbatim>\<open>2 0 0 0 0 0 0 0 1 1 1 1 1 1 1 9\<close> has sixteen fields; the extraction reads the first
  fifteen, and loading the file that holds just this line into a fresh graph gives two
  nodes, the root and the node of the line, exactly as for the line without the sixteenth
  field. The line \<^verbatim>\<open>2 0.5 0 0 0 0 0 1 1 1 1 1 1 1\<close> has fourteen fields, the second of
  which is not an integer; the extraction reads \<open>parentIdx = 0\<close> and \<open>tx = .5\<close>, and the
  load gives two nodes again. An empty file gives the root alone.
\<close>

theorem malformed_line_not_skipped:
  "length (fields ''2 0 0 0 0 0 0 0 1 1 1 1 1 1 1 9'') = 16
   \<and> parse_line ''2 0 0 0 0 0 0 0 1 1 1 1 1 1 1 9'' = Some (box_line 0)
   \<and> map_option (length \<circ> all_nodes \<circ> snd)
       (load_from_file model_t_ctor ''a.mod''
          (text_file ''a.mod'' [''2 0 0 0 0 0 0 0 1 1 1 1 1 1 1 9''])) = Some 2
   \<and> load_from_file model_t_ctor ''a.mod'' (text_file ''a.mod'' [''2 0 0 0 0 0 0 0 1 1 1 1 1 1 1 9''])
     = load_from_file model_t_ctor ''a.mod'' (text_file ''a.mod'' [''2 0 0 0 0 0 0 0 1 1 1 1 1 1 1''])
   \<and> length (fields ''2 0.5 0 0 0 0 0 1 1 1 1 1 1 1'') = 14
   \<and> fields ''2 0.5 0 0 0 0 0 1 1 1 1 1 1 1'' ! 1 = ''0.5''
   \<and> parse_line ''2 0.5 0 0 0 0 0 1 1 1 1 1 1 1'' = Some ((box_line 0)\<lparr>f_tx := 1 / 2\<rparr>)
   \<and> map_option (length \<circ> all_nodes \<circ> snd)
       (load_from_file model_t_ctor ''a.mod''
          (text_file ''a.mod'' [''2 0.5 0 0 0 0 0 1 1 1 1 1 1 1''])) = Some 2
   \<and> map_option (length \<circ> all_nodes \<circ> snd)
       (load_from_file model_t_ctor ''a.mod'' (text_file ''a.mod'' [])) = Some 1"
proof -
  have a: "map_option (length \<circ> all_nodes \<circ> snd)
       (load_from_file model_t_ctor ''a.mod''
          (text_file ''a.mod'' [''2 0 0 0 0 0 0 0 1 1 1 1 1 1 1 9''])) = Some 2"
    using load_text_file[OF wf_model_ctor, of "''a.mod''" "[''2 0 0 0 0 0 0 0 1 1 1 1 1 1 1 9'']"]
    by (auto simp: parse_box_line)
  have b: "map_option (length \<circ> all_nodes \<circ> snd)
       (load_from_file model_t_ctor ''a.mod''
          (text_file ''a.mod'' [''2 0.5 0 0 0 0 0 1 1 1 1 1 1 1''])) = Some 2"
    using load_text_file[OF wf_model_ctor, of "''a.mod''" "[''2 0.5 0 0 0 0 0 1 1 1 1 1 1 1'']"]
    by (auto simp: parse_box_line)
  have c: "map_option (length \<circ> all_nodes \<circ> snd)
       (load_from_file model_t_ctor ''a.mod'' (text_file ''a.mod'' [])) = Some 1"
    using load_text_file[OF wf_model_ctor, of "''a.mod''" "[]"] by auto
  have d: "load_from_file model_t_ctor ''a.mod'' (text_file ''a.mod'' [''2 0 0 0 0 0 0 0 1 1 1 1 1 1 1 9''])
     = load_from_file model_t_ctor ''a.mod'' (text_file ''a.mod'' [''2 0 0 0 0 0 0 0 1 1 1 1 1 1 1''])"
    by (simp add: text_file_def parse_box_line)
  show ?thesis by (intro conjI) (fact a b c d parse_box_line count_fields)+
qed

text \<open>
  Claim C7, amended. On a well-formed graph \<^verbatim>\<open>load_from_file\<close> returns; it returns false
  exactly when the file does not open, and then the graph is unchanged. When the file opens
  it returns true, and the resulting graph is the one that the file without the lines whose
  extraction fails gives: such a line is skipped and the load goes on, and the graph has
  the fresh root and one node per line whose extraction succeeds; this is stated once for
  the outcomes of the extraction and once for lines of text. Which lines those are is
  decided by the extraction of the fifteen values alone, not by the number of fields: a
  line from which fifteen values are read is used whatever follows them (any text put
  after it, starting with a character other than a digit, a point or an exponent letter,
  changes nothing), and a line with fewer than fifteen digits is always skipped.
\<close>

theorem load_from_file_lines:
  "wf_model m \<Longrightarrow>
   (\<exists>b m'. load_from_file m filename fs = Some (b, m')
      \<and> (b = False \<longleftrightarrow> file_lines fs filename = None)
      \<and> (b = False \<longrightarrow> m' = m)
      \<and> (\<forall>lns. file_lines fs filename = Some lns \<longrightarrow>
            load_from_file m filename
              (fs\<lparr>file_lines := (file_lines fs)(filename \<mapsto> filter (\<lambda>l. l \<noteq> None) lns)\<rparr>)
              = Some (True, m')
          \<and> length (all_nodes m') = 1 + length (filter (\<lambda>l. l \<noteq> None) lns))
      \<and> (\<forall>txs. file_lines fs filename = Some (map parse_line txs) \<longrightarrow>
            load_from_file m filename
              (fs\<lparr>file_lines := (file_lines fs)
                     (filename \<mapsto> map parse_line (filter (\<lambda>s. parse_line s \<noteq> None) txs))\<rparr>)
              = Some (True, m')
          \<and> length (all_nodes m') = 1 + length (filter (\<lambda>s. parse_line s \<noteq> None) txs)))
   \<and> (\<forall>s st. parse_line s = None \<longrightarrow> load_line (parse_line s) st = Some st)
   \<and> (\<forall>s f c t. parse_line s = Some f \<and> c \<notin> set ''0123456789.eE''
         \<longrightarrow> parse_line (s @ c # t) = Some f)
   \<and> (\<forall>s. length (filter is_digit s) < 15 \<longrightarrow> parse_line s = None)"
proof -
  assume wf: "wf_model m"
  obtain b m' where o: "load_from_file m filename fs = Some (b, m')"
      "b = False \<longleftrightarrow> file_lines fs filename = None" "b = False \<longrightarrow> m' = m"
      "\<forall>lns. file_lines fs filename = Some lns \<longrightarrow>
            load_from_file m filename
              (fs\<lparr>file_lines := (file_lines fs)(filename \<mapsto> filter (\<lambda>l. l \<noteq> None) lns)\<rparr>)
              = Some (True, m')
          \<and> length (all_nodes m') = 1 + length (filter (\<lambda>l. l \<noteq> None) lns)"
    using load_from_file_outcome[OF wf, of filename fs] by (elim exE conjE) (rule that; assumption)
  have tx: "\<forall>txs. file_lines fs filename = Some (map parse_line txs) \<longrightarrow>
            load_from_file m filename
              (fs\<lparr>file_lines := (file_lines fs)
                     (filename \<mapsto> map parse_line (filter (\<lambda>s. parse_line s \<noteq> None) txs))\<rparr>)
              = Some (True, m')
          \<and> length (all_nodes m') = 1 + length (filter (\<lambda>s. parse_line s \<noteq> None) txs)"
  proof (intro allI impI)
    fix txs assume f: "file_lines fs filename = Some (map parse_line txs)"
    show "load_from_file m filename
              (fs\<lparr>file_lines := (file_lines fs)
                     (filename \<mapsto> map parse_line (filter (\<lambda>s. parse_line s \<noteq> None) txs))\<rparr>)
              = Some (True, m')
          \<and> length (all_nodes m') = 1 + length (filter (\<lambda>s. parse_line s \<noteq> None) txs)"
      using o(4)[rule_format, OF f] by (simp only: filter_parse_line length_map)
  qed
  have sk: "\<forall>s st. parse_line s = None \<longrightarrow> load_line (parse_line s) st = Some st"
    by (simp add: load_line_def)
  have ap: "\<forall>s f c t. parse_line s = Some f \<and> c \<notin> set ''0123456789.eE''
         \<longrightarrow> parse_line (s @ c # t) = Some f"
    using parse_line_append by blast
  have dg: "\<forall>s. length (filter is_digit s) < 15 \<longrightarrow> parse_line s = None"
    using parse_line_digits by blast
  have "\<exists>b m'. load_from_file m filename fs = Some (b, m')
      \<and> (b = False \<longleftrightarrow> file_lines fs filename = None)
      \<and> (b = False \<longrightarrow> m' = m)
      \<and> (\<forall>lns. file_lines fs filename = Some lns \<longrightarrow>
            load_from_file m filename
              (fs\<lparr>file_lines := (file_lines fs)(filename \<mapsto> filter (\<lambda>l. l \<noteq> None) lns)\<rparr>)
              = Some (True, m')
          \<and> length (all_nodes m') = 1 + length (filter (\<lambda>l. l \<noteq> None) lns))
      \<and> (\<forall>txs. file_lines fs filename = Some (map parse_line txs) \<longrightarrow>
            load_from_file m filename
              (fs\<lparr>file_lines := (file_lines fs)
                     (filename \<mapsto> map parse_line (filter (\<lambda>s. parse_line s \<noteq> None) txs))\<rparr>)
              = Some (True, m')
          \<and> length (all_nodes m') = 1 + length (filter (\<lambda>s. parse_line s \<noteq> None) txs))"
    by (rule exI[of _ b], rule exI[of _ m'], intro conjI) (fact o tx)+
  note first = this
  show ?thesis by (intro conjI) (fact first sk ap dg)+
qed

text \<open>
  Loading into the graph with one box the file \<^verbatim>\<open>a.mod\<close> with the three lines
  \<^verbatim>\<open>garbage\<close>, \<^verbatim>\<open>2 0 0 0 0 0 0 0 1 1 1 1 1 1 1 extra\<close> and \<^verbatim>\<open>2 0 0\<close>: the first and
  the third are skipped, the second gives a node. Loading \<^verbatim>\<open>b.mod\<close>, which does not
  open, returns false and the graph as it was.
\<close>

theorem load_from_file_lines_witness:
  "wf_model one_box
   \<and> file_lines (text_file ''a.mod'' [''garbage'', ''2 0 0 0 0 0 0 0 1 1 1 1 1 1 1 extra'', ''2 0 0'']) ''a.mod''
       = Some (map parse_line [''garbage'', ''2 0 0 0 0 0 0 0 1 1 1 1 1 1 1 extra'', ''2 0 0''])
   \<and> filter (\<lambda>s. parse_line s \<noteq> None) [''garbage'', ''2 0 0 0 0 0 0 0 1 1 1 1 1 1 1 extra'', ''2 0 0'']
       = [''2 0 0 0 0 0 0 0 1 1 1 1 1 1 1 extra'']
   \<and> (\<exists>m'. load_from_file one_box ''a.mod''
              (text_file ''a.mod'' [''garbage'', ''2 0 0 0 0 0 0 0 1 1 1 1 1 1 1 extra'', ''2 0 0''])
            = Some (True, m')
          \<and> load_from_file one_box ''a.mod'' (text_file ''a.mod'' [''2 0 0 0 0 0 0 0 1 1 1 1 1 1 1 extra''])
            = Some (True, m')
          \<and> length (all_nodes m') = 2)
   \<and> file_lines (text_file ''a.mod'' []) ''b.mod'' = None
   \<and> load_from_file one_box ''b.mod'' (text_file ''a.mod'' []) = Some (False, one_box)
   \<and> parse_line ''garbage'' = None
   \<and> load_line (parse_line ''garbage'') (one_box, [0]) = Some (one_box, [0])
   \<and> parse_line ''2 0 0 0 0 0 0 0 1 1 1 1 1 1 1'' = Some (box_line 0)
   \<and> CHR '' '' \<notin> set ''0123456789.eE''
   \<and> parse_line (''2 0 0 0 0 0 0 0 1 1 1 1 1 1 1'' @ CHR '' '' # ''extra'') = Some (box_line 0)
   \<and> length (filter is_digit ''2 0 0'') < 15
   \<and> parse_line ''2 0 0'' = None"
proof -
  let ?txs = "[''garbage'', ''2 0 0 0 0 0 0 0 1 1 1 1 1 1 1 extra'', ''2 0 0'']"
  note wf = one_box_eq(4)
  note A = load_from_file_lines[OF wf, of "''a.mod''" "text_file ''a.mod'' ?txs"]
  note B = load_from_file_lines[OF wf, of "''b.mod''" "text_file ''a.mod'' []"]
  have fl: "file_lines (text_file ''a.mod'' ?txs) ''a.mod'' = Some (map parse_line ?txs)"
    by (simp add: text_file_def)
  have ft: "filter (\<lambda>s. parse_line s \<noteq> None) ?txs = [''2 0 0 0 0 0 0 0 1 1 1 1 1 1 1 extra'']"
    by (simp add: parse_box_line)
  have up: "(text_file ''a.mod'' ?txs)\<lparr>file_lines := (file_lines (text_file ''a.mod'' ?txs))
               (''a.mod'' \<mapsto> map parse_line [''2 0 0 0 0 0 0 0 1 1 1 1 1 1 1 extra''])\<rparr>
            = text_file ''a.mod'' [''2 0 0 0 0 0 0 0 1 1 1 1 1 1 1 extra'']"
    by (simp add: text_file_def)
  have a: "\<exists>m'. load_from_file one_box ''a.mod'' (text_file ''a.mod'' ?txs) = Some (True, m')
          \<and> load_from_file one_box ''a.mod'' (text_file ''a.mod'' [''2 0 0 0 0 0 0 0 1 1 1 1 1 1 1 extra''])
            = Some (True, m')
          \<and> length (all_nodes m') = 2"
  proof -
    from A[THEN conjunct1]
    obtain b m' where o: "load_from_file one_box ''a.mod'' (text_file ''a.mod'' ?txs) = Some (b, m')"
        "b = False \<longleftrightarrow> file_lines (text_file ''a.mod'' ?txs) ''a.mod'' = None"
        "b = False \<longrightarrow> m' = one_box"
        "\<forall>lns. file_lines (text_file ''a.mod'' ?txs) ''a.mod'' = Some lns \<longrightarrow>
            load_from_file one_box ''a.mod''
              ((text_file ''a.mod'' ?txs)\<lparr>file_lines := (file_lines (text_file ''a.mod'' ?txs))
                     (''a.mod'' \<mapsto> filter (\<lambda>l. l \<noteq> None) lns)\<rparr>)
              = Some (True, m')
          \<and> length (all_nodes m') = 1 + length (filter (\<lambda>l. l \<noteq> None) lns)"
        "\<forall>txs. file_lines (text_file ''a.mod'' ?txs) ''a.mod'' = Some (map parse_line txs) \<longrightarrow>
            load_from_file one_box ''a.mod''
              ((text_file ''a.mod'' ?txs)\<lparr>file_lines := (file_lines (text_file ''a.mod'' ?txs))
                     (''a.mod'' \<mapsto> map parse_line (filter (\<lambda>s. parse_line s \<noteq> None) txs))\<rparr>)
              = Some (True, m')
          \<and> length (all_nodes m') = 1 + length (filter (\<lambda>s. parse_line s \<noteq> None) txs)"
      by (elim exE conjE) (rule that; assumption)
    have bt: "b = True" using o(2) fl by simp
    have "load_from_file one_box ''a.mod''
              ((text_file ''a.mod'' ?txs)\<lparr>file_lines := (file_lines (text_file ''a.mod'' ?txs))
                     (''a.mod'' \<mapsto> map parse_line (filter (\<lambda>s. parse_line s \<noteq> None) ?txs))\<rparr>)
              = Some (True, m')
          \<and> length (all_nodes m') = 1 + length (filter (\<lambda>s. parse_line s \<noteq> None) ?txs)"
      using o(5)[rule_format, OF fl] .
    then have "load_from_file one_box ''a.mod'' (text_file ''a.mod'' [''2 0 0 0 0 0 0 0 1 1 1 1 1 1 1 extra''])
            = Some (True, m') \<and> length (all_nodes m') = 2"
      unfolding ft up by simp
    then show ?thesis using o(1) bt by simp
  qed
  have nf: "file_lines (text_file ''a.mod'' []) ''b.mod'' = None" by (simp add: text_file_def)
  have c: "load_from_file one_box ''b.mod'' (text_file ''a.mod'' []) = Some (False, one_box)"
  proof -
    from B[THEN conjunct1]
    obtain b m' where o: "load_from_file one_box ''b.mod'' (text_file ''a.mod'' []) = Some (b, m')"
        "b = False \<longleftrightarrow> file_lines (text_file ''a.mod'' []) ''b.mod'' = None"
        "b = False \<longrightarrow> m' = one_box"
      by (elim exE conjE) (rule that; assumption)
    show ?thesis using o nf by simp
  qed
  have g0: "parse_line ''garbage'' = None" by (rule parse_box_line)
  have g: "load_line (parse_line ''garbage'') (one_box, [0]) = Some (one_box, [0])"
    using A[THEN conjunct2, THEN conjunct1, rule_format, OF g0] .
  have p: "parse_line ''2 0 0 0 0 0 0 0 1 1 1 1 1 1 1'' = Some (box_line 0)" by (rule parse_box_line)
  have sp: "CHR '' '' \<notin> set ''0123456789.eE''" by simp
  have e: "parse_line (''2 0 0 0 0 0 0 0 1 1 1 1 1 1 1'' @ CHR '' '' # ''extra'') = Some (box_line 0)"
    using A[THEN conjunct2, THEN conjunct2, THEN conjunct1, rule_format, OF conjI[OF p sp]] .
  have dl: "length (filter is_digit ''2 0 0'') < 15" by (simp add: is_digit_def)
  have d: "parse_line ''2 0 0'' = None"
    using A[THEN conjunct2, THEN conjunct2, THEN conjunct2, rule_format, OF dl] .
  show ?thesis by (intro conjI) (fact wf fl ft a nf c g0 g p sp e dl d)+
qed

text \<open>
  Claim C9. A parsed line whose parent index is negative or at least the number of nodes
  constructed so far is not skipped; its node becomes a child of the fresh root. First for
  one iteration of the loop of \<^verbatim>\<open>load_from_file\<close> (\<open>ns\<close> is the vector \<^verbatim>\<open>nodes\<close>,
  whose entries are nodes of the graph): a node is created, appended to \<^verbatim>\<open>nodes\<close> and
  \<^verbatim>\<open>all_nodes\<close>, and attached as the last child of the root. Then for a whole file
  \<open>pre @ Some f # post\<close>: when line \<open>f\<close> is read, the root and one node per parsed line
  of \<open>pre\<close> have been constructed; the load returns true, the node of \<open>f\<close> is the entry
  of \<open>all_nodes\<close> after those, its parent is the root, and the root has it as a child.
\<close>

theorem load_line_bad_parent:
  "(wf_model m \<and> set ns \<subseteq> set (all_nodes m)
     \<and> (f_parentIdx f < 0 \<or> int (length ns) \<le> f_parentIdx f) \<longrightarrow>
     (\<exists>m' a rn nd.
         load_line (Some f) (m, ns) = Some (m', ns @ [a])
       \<and> a \<notin> set (all_nodes m) \<and> all_nodes m' = all_nodes m @ [a]
       \<and> root_node m' = root_node m
       \<and> node_store m (root_node m) = Some rn
       \<and> node_store m' (root_node m) = Some (rn\<lparr>children := children rn @ [a]\<rparr>)
       \<and> node_store m' a = Some nd \<and> parent nd = Some (root_node m)))
   \<and> (wf_model m \<and> file_lines fs filename = Some (pre @ Some f # post)
       \<and> (f_parentIdx f < 0
            \<or> 1 + int (length (filter (\<lambda>l. l \<noteq> None) pre)) \<le> f_parentIdx f) \<longrightarrow>
       (\<exists>m' nd rn.
           load_from_file m filename fs = Some (True, m')
         \<and> length (all_nodes m') = 2 + length (filter (\<lambda>l. l \<noteq> None) pre)
                                      + length (filter (\<lambda>l. l \<noteq> None) post)
         \<and> hd (all_nodes m') = root_node m'
         \<and> node_store m' (all_nodes m' ! (1 + length (filter (\<lambda>l. l \<noteq> None) pre))) = Some nd
         \<and> parent nd = Some (root_node m')
         \<and> node_store m' (root_node m') = Some rn
         \<and> all_nodes m' ! (1 + length (filter (\<lambda>l. l \<noteq> None) pre)) \<in> set (children rn)))"
proof (intro conjI impI)
  assume a: "wf_model m \<and> set ns \<subseteq> set (all_nodes m)
   \<and> (f_parentIdx f < 0 \<or> int (length ns) \<le> f_parentIdx f)"
  then obtain t where t: "wf_tree m t" unfolding wf_model_def by blast
  then have "set (all_nodes m) = set (preorder t)" unfolding wf_tree_def by blast
  then have ns: "set ns \<subseteq> set (preorder t)" using a by simp
  have pa: "(if 0 \<le> f_parentIdx f \<and> f_parentIdx f < int (length ns)
                  then ns ! nat (f_parentIdx f) else root_node m) = root_node m"
    using a by auto
  show "\<exists>m' a rn nd.
       load_line (Some f) (m, ns) = Some (m', ns @ [a])
     \<and> a \<notin> set (all_nodes m) \<and> all_nodes m' = all_nodes m @ [a]
     \<and> root_node m' = root_node m
     \<and> node_store m (root_node m) = Some rn
     \<and> node_store m' (root_node m) = Some (rn\<lparr>children := children rn @ [a]\<rparr>)
     \<and> node_store m' a = Some nd \<and> parent nd = Some (root_node m)"
    using load_line_some[OF t ns, of f] unfolding pa by blast
next
  assume b: "wf_model m \<and> file_lines fs filename = Some (pre @ Some f # post)
       \<and> (f_parentIdx f < 0
            \<or> 1 + int (length (filter (\<lambda>l. l \<noteq> None) pre)) \<le> f_parentIdx f)"
  then obtain t where t: "wf_tree m t" unfolding wf_model_def by blast
  show "\<exists>m' nd rn.
           load_from_file m filename fs = Some (True, m')
         \<and> length (all_nodes m') = 2 + length (filter (\<lambda>l. l \<noteq> None) pre)
                                      + length (filter (\<lambda>l. l \<noteq> None) post)
         \<and> hd (all_nodes m') = root_node m'
         \<and> node_store m' (all_nodes m' ! (1 + length (filter (\<lambda>l. l \<noteq> None) pre))) = Some nd
         \<and> parent nd = Some (root_node m')
         \<and> node_store m' (root_node m') = Some rn
         \<and> all_nodes m' ! (1 + length (filter (\<lambda>l. l \<noteq> None) pre)) \<in> set (children rn)"
    using load_bad_parent_file[OF t, of fs filename pre f post] b by blast
qed

text \<open>
  A line with parent index 7 read when \<^verbatim>\<open>nodes\<close> holds only the root, and the file
  \<^verbatim>\<open>a.mod\<close> of \<open>example_fs\<close>, in which that line follows a line that does not parse.
\<close>

theorem load_line_bad_parent_witness:
  "wf_model model_t_ctor \<and> set [0] \<subseteq> set (all_nodes model_t_ctor)
   \<and> (f_parentIdx (box_line 7) < 0 \<or> int (length [0 :: nat]) \<le> f_parentIdx (box_line 7))
   \<and> (\<exists>m' a rn nd.
       load_line (Some (box_line 7)) (model_t_ctor, [0]) = Some (m', [0] @ [a])
     \<and> a \<notin> set (all_nodes model_t_ctor) \<and> all_nodes m' = all_nodes model_t_ctor @ [a]
     \<and> root_node m' = root_node model_t_ctor
     \<and> node_store model_t_ctor (root_node model_t_ctor) = Some rn
     \<and> node_store m' (root_node model_t_ctor) = Some (rn\<lparr>children := children rn @ [a]\<rparr>)
     \<and> node_store m' a = Some nd \<and> parent nd = Some (root_node model_t_ctor))
   \<and> file_lines example_fs ''a.mod'' = Some ([None] @ Some (box_line 7) # [])
   \<and> (f_parentIdx (box_line 7) < 0
        \<or> 1 + int (length (filter (\<lambda>l. l \<noteq> None) [None :: line])) \<le> f_parentIdx (box_line 7))
   \<and> (\<exists>m' nd rn.
         load_from_file model_t_ctor ''a.mod'' example_fs = Some (True, m')
       \<and> length (all_nodes m') = 2 + length (filter (\<lambda>l. l \<noteq> None) [None :: line])
                                    + length (filter (\<lambda>l. l \<noteq> None) ([] :: line list))
       \<and> hd (all_nodes m') = root_node m'
       \<and> node_store m' (all_nodes m' ! (1 + length (filter (\<lambda>l. l \<noteq> None) [None :: line]))) = Some nd
       \<and> parent nd = Some (root_node m')
       \<and> node_store m' (root_node m') = Some rn
       \<and> all_nodes m' ! (1 + length (filter (\<lambda>l. l \<noteq> None) [None :: line])) \<in> set (children rn))"
proof -
  have h: "wf_model model_t_ctor \<and> set [0] \<subseteq> set (all_nodes model_t_ctor)
   \<and> (f_parentIdx (box_line 7) < 0 \<or> int (length [0 :: nat]) \<le> f_parentIdx (box_line 7))"
    using wf_model_ctor by (simp add: model_t_ctor_def alloc_node_def box_line_def)
  have g: "wf_model model_t_ctor
       \<and> file_lines example_fs ''a.mod'' = Some ([None] @ Some (box_line 7) # [])
       \<and> (f_parentIdx (box_line 7) < 0
        \<or> 1 + int (length (filter (\<lambda>l. l \<noteq> None) [None :: line])) \<le> f_parentIdx (box_line 7))"
    using wf_model_ctor by (simp add: example_fs_def box_line_def)
  show ?thesis
    using load_line_bad_parent[of model_t_ctor "[0]" "box_line 7" example_fs "''a.mod''" "[None]" "[]"]
      h g by blast
qed


section \<open>Shape ownership\<close>

lemma remove_node_frame:
  "remove_node node m = Some m' \<Longrightarrow>
   owned_shapes m' = owned_shapes m \<and> shape_store m' = shape_store m"
  by (auto simp: remove_node_def Let_def split: option.splits if_splits)

lemma create_with_frame:
  "create_with sh p m = Some (a, m1) \<Longrightarrow>
   owned_shapes m1 = owned_shapes m @ [next_addr m]
   \<and> shape_store m1 = (shape_store m)(next_addr m \<mapsto> sh)"
  by (auto simp: create_with_def alloc_shape_def new_model_node_def alloc_node_def Let_def
      split: option.splits if_splits)

lemma update_node_frame:
  "update_node a f m = Some m1 \<Longrightarrow>
   owned_shapes m1 = owned_shapes m \<and> shape_store m1 = shape_store m"
  by (auto simp: update_node_def split: option.splits)

lemma apply_transform_frame:
  "apply_transform deg d sc tm ax cur m = Some m1 \<Longrightarrow>
   owned_shapes m1 = owned_shapes m \<and> shape_store m1 = shape_store m"
  by (auto simp: apply_transform_def Let_def dest: update_node_frame
      split: option.splits if_splits)

lemma wf_owned_live:
  assumes "wf_model m"
  shows "s \<in> set (owned_shapes m) \<Longrightarrow> shape_store m s \<noteq> None \<and> s \<noteq> next_addr m"
    and "node_store m x = Some nd \<Longrightarrow> shape nd = Some s \<Longrightarrow> s \<in> set (owned_shapes m)"
proof -
  obtain t where t: "wf_tree m t" using assms unfolding wf_model_def by blast
  then have w: "\<forall>s \<in> dom (shape_store m). s < next_addr m"
    "set (owned_shapes m) \<subseteq> dom (shape_store m)"
    "\<forall>a n s. node_store m a = Some n \<and> shape n = Some s \<longrightarrow> s \<in> set (owned_shapes m)"
    unfolding wf_tree_def by blast+
  show "s \<in> set (owned_shapes m) \<Longrightarrow> shape_store m s \<noteq> None \<and> s \<noteq> next_addr m"
    using w(1,2) by (metis domIff less_irrefl subsetD)
  show "node_store m x = Some nd \<Longrightarrow> shape nd = Some s \<Longrightarrow> s \<in> set (owned_shapes m)"
    using w(3) by blast
qed

lemma dtor_wf:
  assumes "wf_model m"
  shows "\<exists>m3. model_t_dtor m = Some m3 \<and> owned_shapes m3 = [] \<and> all_nodes m3 = []
           \<and> node_store m3 = Map.empty
           \<and> (\<forall>s \<in> set (owned_shapes m). shape_store m3 s = None)"
proof -
  obtain t where t: "wf_tree m t" using assms unfolding wf_model_def by blast
  show ?thesis using cleanup_wf[OF t] by (simp add: model_t_dtor_def restrict_map_def)
qed

text \<open>
  Claim C10. \<^verbatim>\<open>remove_node\<close> leaves \<open>owned_shapes\<close> and the shapes themselves as they
  are, so the shape of every node, removed or not, is still in the pool and alive
  afterwards. An owned shape also survives the four create functions, the transform keys
  and a load that fails to open its file; it is released by a load that opens its file and
  by the destructor.
\<close>

theorem shapes_outlive_remove_node:
  "(remove_node node m = Some m' \<longrightarrow>
      owned_shapes m' = owned_shapes m \<and> shape_store m' = shape_store m)
   \<and> (wf_model m \<and> remove_node node m = Some m' \<and> node_store m x = Some nd \<and> shape nd = Some sx
        \<longrightarrow> sx \<in> set (owned_shapes m') \<and> shape_store m' sx \<noteq> None)
   \<and> (wf_model m \<and> s \<in> set (owned_shapes m) \<longrightarrow>
        (create_sphere lvl p m = Some (a1, m1)
           \<longrightarrow> s \<in> set (owned_shapes m1) \<and> shape_store m1 s = shape_store m s)
      \<and> (create_cylinder lvl p m = Some (a2, m2)
           \<longrightarrow> s \<in> set (owned_shapes m2) \<and> shape_store m2 s = shape_store m s)
      \<and> (create_box p m = Some (a3, m3)
           \<longrightarrow> s \<in> set (owned_shapes m3) \<and> shape_store m3 s = shape_store m s)
      \<and> (create_cone lvl p m = Some (a4, m4)
           \<longrightarrow> s \<in> set (owned_shapes m4) \<and> shape_store m4 s = shape_store m s)
      \<and> (apply_transform deg d sc tm ax cur m = Some m5
           \<longrightarrow> s \<in> set (owned_shapes m5) \<and> shape_store m5 s = shape_store m s)
      \<and> (file_lines fs filename = None \<longrightarrow> load_from_file m filename fs = Some (False, m))
      \<and> (file_lines fs filename \<noteq> None \<longrightarrow>
           (\<exists>m6. load_from_file m filename fs = Some (True, m6)
              \<and> s \<notin> set (owned_shapes m6) \<and> shape_store m6 s = None))
      \<and> (\<exists>m7. model_t_dtor m = Some m7 \<and> owned_shapes m7 = [] \<and> shape_store m7 s = None))"
proof -
  have A: "remove_node node m = Some m' \<longrightarrow>
      owned_shapes m' = owned_shapes m \<and> shape_store m' = shape_store m"
    using remove_node_frame by blast
  have B: "wf_model m \<and> remove_node node m = Some m' \<and> node_store m x = Some nd \<and> shape nd = Some sx
        \<longrightarrow> sx \<in> set (owned_shapes m') \<and> shape_store m' sx \<noteq> None"
  proof
    assume h: "wf_model m \<and> remove_node node m = Some m' \<and> node_store m x = Some nd \<and> shape nd = Some sx"
    then have o: "sx \<in> set (owned_shapes m)" using wf_owned_live(2) by blast
    then have "shape_store m sx \<noteq> None" using wf_owned_live(1) h by blast
    then show "sx \<in> set (owned_shapes m') \<and> shape_store m' sx \<noteq> None"
      using o remove_node_frame[of node m m'] h by simp
  qed
  have C: "s \<in> set (owned_shapes mm) \<and> shape_store mm s = shape_store m s"
    if "wf_model m" "s \<in> set (owned_shapes m)" "create_with sh p m = Some (aa, mm)" for sh aa mm
    using create_with_frame[OF that(3)] wf_owned_live(1)[OF that(1,2)] that(2) by simp
  have D: "?thesis" if wf: "wf_model m" and s: "s \<in> set (owned_shapes m)"
  proof -
    obtain t where t: "wf_tree m t" using wf unfolding wf_model_def by blast
    have 5: "apply_transform deg d sc tm ax cur m = Some m5
           \<longrightarrow> s \<in> set (owned_shapes m5) \<and> shape_store m5 s = shape_store m s"
      using apply_transform_frame[of deg d sc tm ax cur m m5] s by auto
    have 6: "file_lines fs filename = None \<longrightarrow> load_from_file m filename fs = Some (False, m)"
      using load_from_file_closed by blast
    have 7: "file_lines fs filename \<noteq> None \<longrightarrow>
           (\<exists>m6. load_from_file m filename fs = Some (True, m6)
              \<and> s \<notin> set (owned_shapes m6) \<and> shape_store m6 s = None)"
    proof
      assume "file_lines fs filename \<noteq> None"
      then obtain lns where "file_lines fs filename = Some lns" by auto
      then show "\<exists>m6. load_from_file m filename fs = Some (True, m6)
              \<and> s \<notin> set (owned_shapes m6) \<and> shape_store m6 s = None"
        using load_from_file_open[OF t, of fs filename lns] s by blast
    qed
    have 8: "\<exists>m7. model_t_dtor m = Some m7 \<and> owned_shapes m7 = [] \<and> shape_store m7 s = None"
      using dtor_wf[OF wf] s by blast
    show ?thesis
      using A B C[OF wf s, of "sphere_t lvl" a1 m1] C[OF wf s, of "cylinder_t lvl" a2 m2]
        C[OF wf s, of "box_t 0" a3 m3] C[OF wf s, of "cone_t lvl" a4 m4] 5 6 7 8
      unfolding create_with_eqs by blast
  qed
  show ?thesis using A B D by blast
qed

lemma two_boxes_store:
  "owned_shapes two_boxes = [1, 3]"
  "\<exists>nd. node_store two_boxes 2 = Some nd \<and> shape nd = Some 1"
  by (simp_all add: two_boxes_def one_box_def create_box_def alloc_shape_def new_model_node_def
      alloc_node_def add_child_def model_t_ctor_def model_node_init_def Let_def)

lemma create_with_defined:
  assumes "wf_model m"
  shows "\<exists>a m1. create_with sh None m = Some (a, m1)"
proof -
  obtain t where t: "wf_tree m t" using assms unfolding wf_model_def by blast
  show ?thesis using create_with_wf[OF t wf_tree_root[OF t], of None sh] by blast
qed

lemma remove_node_defined:
  assumes "wf_model m" "n \<in> set (all_nodes m)" "n \<noteq> root_node m"
  shows "\<exists>m'. remove_node (Some n) m = Some m'"
proof -
  obtain t where t: "wf_tree m t" using assms(1) unfolding wf_model_def by blast
  then have "n \<in> set (preorder t)" using assms(2) unfolding wf_tree_def by blast
  then show ?thesis using remove_node_wf[OF t _ assms(3)] by blast
qed

text \<open>The graph with two boxes: the first box (node 2, shape 1) is removed, or a node is
  created, or a key is pressed, or a file is loaded, or the graph is destroyed.\<close>

theorem shapes_outlive_remove_node_witness:
  "wf_model two_boxes \<and> 1 \<in> set (owned_shapes two_boxes)
   \<and> (\<exists>nd m'. node_store two_boxes 2 = Some nd \<and> shape nd = Some 1
         \<and> remove_node (Some 2) two_boxes = Some m'
         \<and> owned_shapes m' = owned_shapes two_boxes \<and> shape_store m' = shape_store two_boxes
         \<and> 1 \<in> set (owned_shapes m') \<and> shape_store m' 1 \<noteq> None)
   \<and> (\<exists>a1 m1. create_sphere 1 None two_boxes = Some (a1, m1)
         \<and> 1 \<in> set (owned_shapes m1) \<and> shape_store m1 1 = shape_store two_boxes 1)
   \<and> (\<exists>a2 m2. create_cylinder 1 None two_boxes = Some (a2, m2)
         \<and> 1 \<in> set (owned_shapes m2) \<and> shape_store m2 1 = shape_store two_boxes 1)
   \<and> (\<exists>a3 m3. create_box None two_boxes = Some (a3, m3)
         \<and> 1 \<in> set (owned_shapes m3) \<and> shape_store m3 1 = shape_store two_boxes 1)
   \<and> (\<exists>a4 m4. create_cone 1 None two_boxes = Some (a4, m4)
         \<and> 1 \<in> set (owned_shapes m4) \<and> shape_store m4 1 = shape_store two_boxes 1)
   \<and> (\<exists>m5. apply_transform 10 (1 / 10) (11 / 10) TM_TRANS 1 (Some 2) two_boxes = Some m5
         \<and> 1 \<in> set (owned_shapes m5) \<and> shape_store m5 1 = shape_store two_boxes 1)
   \<and> file_lines example_fs ''b.mod'' = None
   \<and> load_from_file two_boxes ''b.mod'' example_fs = Some (False, two_boxes)
   \<and> file_lines example_fs ''a.mod'' \<noteq> None
   \<and> (\<exists>m6. load_from_file two_boxes ''a.mod'' example_fs = Some (True, m6)
         \<and> 1 \<notin> set (owned_shapes m6) \<and> shape_store m6 1 = None)
   \<and> (\<exists>m7. model_t_dtor two_boxes = Some m7 \<and> owned_shapes m7 = [] \<and> shape_store m7 1 = None)"
proof -
  note wf = two_boxes_eq(4)
  have s: "1 \<in> set (owned_shapes two_boxes)" by (simp add: two_boxes_store)
  obtain nd where nd: "node_store two_boxes 2 = Some nd" "shape nd = Some 1"
    using two_boxes_store(2) by blast
  obtain m' where m': "remove_node (Some 2) two_boxes = Some m'"
    using remove_node_defined[OF wf, of 2] two_boxes_eq(2,3) by auto
  obtain a1 m1 where c1: "create_sphere 1 None two_boxes = Some (a1, m1)"
    using create_with_defined[OF wf, of "sphere_t 1"] by (auto simp: create_with_eqs)
  obtain a2 m2 where c2: "create_cylinder 1 None two_boxes = Some (a2, m2)"
    using create_with_defined[OF wf, of "cylinder_t 1"] by (auto simp: create_with_eqs)
  obtain a3 m3 where c3: "create_box None two_boxes = Some (a3, m3)"
    using create_with_defined[OF wf, of "box_t 0"] by (auto simp: create_with_eqs)
  obtain a4 m4 where c4: "create_cone 1 None two_boxes = Some (a4, m4)"
    using create_with_defined[OF wf, of "cone_t 1"] by (auto simp: create_with_eqs)
  obtain m5 where c5: "apply_transform 10 (1 / 10) (11 / 10) TM_TRANS 1 (Some 2) two_boxes = Some m5"
    using nd(1) by (simp add: apply_transform_def update_node_def)
  have f1: "file_lines example_fs ''b.mod'' = None" by (simp add: example_fs_def)
  have f2: "file_lines example_fs ''a.mod'' \<noteq> None" by (simp add: example_fs_def)
  note T = shapes_outlive_remove_node[of "Some 2" two_boxes m' 2 nd 1 1 1 None a1 m1 a2 m2 a3 m3 a4 m4
      10 "1 / 10" "11 / 10" TM_TRANS 1 "Some 2" m5]
  have L1: "load_from_file two_boxes ''b.mod'' example_fs = Some (False, two_boxes)"
    using T[of example_fs "''b.mod''"] wf s f1 by blast
  have L2: "\<exists>m6. load_from_file two_boxes ''a.mod'' example_fs = Some (True, m6)
         \<and> 1 \<notin> set (owned_shapes m6) \<and> shape_store m6 1 = None"
    using T[of example_fs "''a.mod''"] wf s f2 by blast
  show ?thesis
    using T[of example_fs "''b.mod''"] wf s nd m' c1 c2 c3 c4 c5 f1 f2 L1 L2 by blast
qed


section \<open>World matrix\<close>

lemma get_world_matrix_root:
  "h a = Some n \<Longrightarrow> parent n = None \<Longrightarrow> get_world_matrix h a = Some (local_matrix n)"
  by (subst get_world_matrix.simps) simp

lemma get_world_matrix_child:
  "h a = Some n \<Longrightarrow> parent n = Some p \<Longrightarrow> get_world_matrix h p = Some w \<Longrightarrow>
   get_world_matrix h a = Some (mat_mul w (local_matrix n))"
  by (subst get_world_matrix.simps) simp

lemma world_along_chain:
  "get_world_matrix h p = Some w \<Longrightarrow> chain_from h p as \<Longrightarrow>
   get_world_matrix h (last (p # as)) = Some (foldl mat_mul w (map (local_at h) as))"
proof (induction as arbitrary: p w)
  case Nil
  then show ?case by simp
next
  case (Cons a as)
  then obtain n where n: "h a = Some n" "parent n = Some p" "chain_from h a as"
    by (auto split: option.splits)
  have "get_world_matrix h a = Some (mat_mul w (local_at h a))"
    using get_world_matrix_child[of h a n p w] n(1,2) Cons.prems(1) by (simp add: local_at_def)
  then show ?case using Cons.IH[OF _ n(3)] by simp
qed

lemma world_of_chain:
  assumes "ancestor_chain h as"
  shows "get_world_matrix h (last as) = Some (chain_product h as)"
proof -
  obtain r rest n where a: "as = r # rest" "h r = Some n" "parent n = None" "chain_from h r rest"
    using assms by (auto simp: ancestor_chain_def split: list.splits option.splits)
  have "get_world_matrix h r = Some (local_at h r)"
    using get_world_matrix_root[of h r n] a(2,3) by (simp add: local_at_def)
  then show ?thesis using world_along_chain[OF _ a(4)] a(1) by (simp add: chain_product_def)
qed

lemma chain_in_subtree:
  "shaped h (Some p) t \<Longrightarrow> x \<in> set (preorder t) \<Longrightarrow>
   \<exists>as. chain_from h p as \<and> as \<noteq> [] \<and> hd as = rt t \<and> last as = x"
proof (induction t arbitrary: p)
  case (Tree b ts)
  from Tree.prems(1) obtain bn where bn: "h b = Some bn" "parent bn = Some p"
      and sub: "\<And>t. t \<in> set ts \<Longrightarrow> shaped h (Some b) t"
    by (auto split: option.splits)
  show ?case
  proof (cases "x = b")
    case True
    then show ?thesis using bn by (intro exI[of _ "[b]"]) simp
  next
    case False
    then obtain u where u: "u \<in> set ts" "x \<in> set (preorder u)" using Tree.prems(2) by auto
    obtain as where as: "chain_from h b as" "as \<noteq> []" "last as = x"
      using Tree.IH[OF u(1) sub[OF u(1)] u(2)] by blast
    then show ?thesis using bn by (intro exI[of _ "b # as"]) simp
  qed
qed

lemma chain_in_tree:
  assumes "shaped h None t" "x \<in> set (preorder t)"
  shows "\<exists>as. ancestor_chain h as \<and> hd as = rt t \<and> last as = x"
proof (cases t)
  case (Tree b ts)
  from assms(1) Tree obtain bn where bn: "h b = Some bn" "parent bn = None"
      and sub: "\<And>t. t \<in> set ts \<Longrightarrow> shaped h (Some b) t"
    by (auto split: option.splits)
  show ?thesis
  proof (cases "x = b")
    case True
    then show ?thesis using bn Tree by (intro exI[of _ "[b]"]) (simp add: ancestor_chain_def)
  next
    case False
    then obtain u where u: "u \<in> set ts" "x \<in> set (preorder u)" using assms(2) Tree by auto
    obtain as where as: "chain_from h b as" "as \<noteq> []" "last as = x"
      using chain_in_subtree[OF sub[OF u(1)] u(2)] by blast
    then show ?thesis using bn Tree by (intro exI[of _ "b # as"]) (simp add: ancestor_chain_def)
  qed
qed

text \<open>
  Claim C2. \<^verbatim>\<open>get_world_matrix\<close> of the last node of an ancestor chain (root first) is
  the product of the local matrices along the chain, taken left to right; a node without
  parent gets exactly its local matrix; and every node of a well-formed graph has such a
  chain from the root, so the function returns for it.
\<close>

theorem world_matrix_is_chain_product:
  "(ancestor_chain h as \<longrightarrow> get_world_matrix h (last as) = Some (chain_product h as))
   \<and> (h a = Some n \<and> parent n = None \<longrightarrow> get_world_matrix h a = Some (local_matrix n))
   \<and> (wf_model m \<and> x \<in> set (all_nodes m) \<longrightarrow>
        (\<exists>xs. ancestor_chain (node_store m) xs \<and> hd xs = root_node m \<and> last xs = x
           \<and> get_world_matrix (node_store m) x = Some (chain_product (node_store m) xs)))"
proof -
  have 1: "ancestor_chain h as \<longrightarrow> get_world_matrix h (last as) = Some (chain_product h as)"
    using world_of_chain by blast
  have 2: "h a = Some n \<and> parent n = None \<longrightarrow> get_world_matrix h a = Some (local_matrix n)"
    using get_world_matrix_root by blast
  have 3: "\<exists>xs. ancestor_chain (node_store m) xs \<and> hd xs = root_node m \<and> last xs = x
           \<and> get_world_matrix (node_store m) x = Some (chain_product (node_store m) xs)"
    if wfm: "wf_model m" and xin: "x \<in> set (all_nodes m)"
  proof -
    obtain t where t: "wf_tree m t" using wfm unfolding wf_model_def by blast
    then have w: "rt t = root_node m" "shaped (node_store m) None t"
        "set (all_nodes m) = set (preorder t)"
      unfolding wf_tree_def by blast+
    obtain xs where xs: "ancestor_chain (node_store m) xs" "hd xs = rt t" "last xs = x"
      using chain_in_tree[OF w(2), of x] xin w(3) by auto
    then show ?thesis using world_of_chain[OF xs(1)] w(1) by auto
  qed
  show ?thesis using 1 2 3 by blast
qed

lemma two_boxes_chain:
  "ancestor_chain (node_store two_boxes) [0, 2, 4]"
  "\<exists>n. node_store two_boxes 0 = Some n \<and> parent n = None"
  by (simp_all add: ancestor_chain_def two_boxes_def one_box_def create_box_def alloc_shape_def
      new_model_node_def alloc_node_def add_child_def model_t_ctor_def model_node_init_def Let_def)

text \<open>The chain root, first box, second box of \<open>two_boxes\<close>.\<close>

theorem world_matrix_is_chain_product_witness:
  "ancestor_chain (node_store two_boxes) [0, 2, 4]
   \<and> get_world_matrix (node_store two_boxes) (last [0, 2, 4])
       = Some (chain_product (node_store two_boxes) [0, 2, 4])
   \<and> (\<exists>n. node_store two_boxes 0 = Some n \<and> parent n = None
          \<and> get_world_matrix (node_store two_boxes) 0 = Some (local_matrix n))
   \<and> wf_model two_boxes \<and> 4 \<in> set (all_nodes two_boxes)
   \<and> (\<exists>xs. ancestor_chain (node_store two_boxes) xs \<and> hd xs = root_node two_boxes \<and> last xs = 4
          \<and> get_world_matrix (node_store two_boxes) 4 = Some (chain_product (node_store two_boxes) xs))"
proof -
  obtain n where n: "node_store two_boxes 0 = Some n" "parent n = None"
    using two_boxes_chain(2) by blast
  have x: "4 \<in> set (all_nodes two_boxes)" by (simp add: two_boxes_eq(3))
  show ?thesis
    using world_matrix_is_chain_product[of "node_store two_boxes" "[0, 2, 4]" 0 n two_boxes 4]
      two_boxes_chain(1) n two_boxes_eq(4) x by blast
qed


section \<open>Save followed by load\<close>

lemma one_box_store:
  "node_store one_box = [0 \<mapsto> (model_node_init None None)\<lparr>children := [2]\<rparr>,
                         2 \<mapsto> model_node_init (Some 1) (Some 0)]"
  "shape_store one_box = [1 \<mapsto> box_t 0]" "owned_shapes one_box = [1]"
  by (simp_all add: one_box_def create_box_def alloc_shape_def new_model_node_def
      alloc_node_def add_child_def model_t_ctor_def model_node_init_def Let_def fun_upd_twist
      numeral_2_eq_2)

lemma two_boxes_store_full:
  "node_store two_boxes = [0 \<mapsto> (model_node_init None None)\<lparr>children := [2]\<rparr>,
                           2 \<mapsto> (model_node_init (Some 1) (Some 0))\<lparr>children := [4]\<rparr>,
                           4 \<mapsto> model_node_init (Some 3) (Some 2)]"
  "shape_store two_boxes = [1 \<mapsto> box_t 0, 3 \<mapsto> box_t 0]"
  by (simp_all add: two_boxes_def one_box_def create_box_def alloc_shape_def new_model_node_def
      alloc_node_def add_child_def model_t_ctor_def model_node_init_def Let_def fun_upd_twist
      eval_nat_numeral)

lemma save_one_box:
  "save_to_file one_box ''a.mod'' empty_fs
   = Some (True, empty_fs\<lparr>file_lines := [''a.mod'' \<mapsto> [Some root_line, Some (box_line 0)]]\<rparr>)"
  by (simp add: save_to_file_def empty_fs_def collect_def collect_all_Cons collect_all_Nil
      one_box_store one_box_eq(2) save_line_def model_node_init_def mat4_id_def
      box_t_def Let_def root_line_def box_line_def)

lemma save_two_boxes:
  "save_to_file two_boxes ''b.mod'' empty_fs
   = Some (True, empty_fs\<lparr>file_lines :=
        [''b.mod'' \<mapsto> [Some root_line, Some (box_line 0), Some (box_line 1)]]\<rparr>)"
  by (simp add: save_to_file_def empty_fs_def collect_def collect_all_Cons collect_all_Nil
      two_boxes_store_full two_boxes_eq(2) save_line_def model_node_init_def mat4_id_def
      box_t_def Let_def root_line_def box_line_def)

lemma load_one_box:
  "\<exists>m2. load_from_file model_t_ctor ''a.mod''
           (empty_fs\<lparr>file_lines := [''a.mod'' \<mapsto> [Some root_line, Some (box_line 0)]]\<rparr>)
         = Some (True, m2)
      \<and> root_node m2 = 1 \<and> all_nodes m2 = [1, 2, 4]
      \<and> collect (node_store m2) (root_node m2) = Some [1, 2, 4]
      \<and> (\<exists>g. node_store m2 2 = Some g \<and> shape g = None \<and> parent g = Some 1 \<and> children g = [])
      \<and> (\<exists>b. node_store m2 4 = Some b \<and> shape b = Some 3 \<and> parent b = Some 1)
      \<and> shape_store m2 3 = Some (box_t 0)"
  by (simp add: load_from_file_def empty_fs_def cleanup_def delete_node_def delete_all_Cons
      delete_all_Nil model_t_ctor_def alloc_node_def alloc_shape_def load_line_def load_shape_def
      new_model_node_def add_child_def model_node_init_def root_line_def box_line_def Let_def
      collect_def collect_all_Cons collect_all_Nil)

lemma load_two_boxes:
  "\<exists>m3. load_from_file model_t_ctor ''b.mod''
           (empty_fs\<lparr>file_lines :=
              [''b.mod'' \<mapsto> [Some root_line, Some (box_line 0), Some (box_line 1)]]\<rparr>)
         = Some (True, m3)
      \<and> root_node m3 = 1 \<and> all_nodes m3 = [1, 2, 4, 6]
      \<and> collect (node_store m3) (root_node m3) = Some [1, 2, 6, 4]
      \<and> (\<exists>g. node_store m3 2 = Some g \<and> shape g = None \<and> parent g = Some 1 \<and> children g = [6])
      \<and> (\<exists>b. node_store m3 4 = Some b \<and> shape b = Some 3 \<and> parent b = Some 1 \<and> children b = [])
      \<and> (\<exists>c. node_store m3 6 = Some c \<and> shape c = Some 5 \<and> parent c = Some 2)"
  by (simp add: load_from_file_def empty_fs_def cleanup_def delete_node_def delete_all_Cons
      delete_all_Nil model_t_ctor_def alloc_node_def alloc_shape_def load_line_def load_shape_def
      new_model_node_def add_child_def model_node_init_def root_line_def box_line_def Let_def
      collect_def collect_all_Cons collect_all_Nil)

lemma save_lines_defined:
  assumes "wf_model m" "set xs \<subseteq> set (all_nodes m)"
  shows "\<exists>ls. save_lines m nodes xs = Some ls \<and> length ls = length xs \<and> None \<notin> set ls"
  using assms(2)
proof (induction xs)
  case Nil
  show ?case by simp
next
  case (Cons a xs)
  obtain t where t: "wf_tree m t" using assms(1) unfolding wf_model_def by blast
  then have "dom (node_store m) = set (preorder t)" "set (all_nodes m) = set (preorder t)"
    unfolding wf_tree_def by blast+
  then have "a \<in> dom (node_store m)" using Cons.prems by simp
  then obtain n where n: "node_store m a = Some n" by blast
  have "\<exists>l. save_line m nodes a = Some l"
  proof (cases "shape n")
    case None
    then show ?thesis using n by (simp add: save_line_def Let_def)
  next
    case (Some s)
    then have "shape_store m s \<noteq> None"
      using wf_owned_live(1)[OF assms(1)] wf_owned_live(2)[OF assms(1) n] by blast
    then show ?thesis using n Some by (auto simp: save_line_def Let_def)
  qed
  then show ?case using Cons by auto
qed

text \<open>In general, saving a well-formed graph and loading the file gives one node more
  than were saved.\<close>

lemma save_then_load_node_count:
  assumes "wf_model m" "can_create fs filename" "wf_model m0"
  shows "\<exists>fs' m'. save_to_file m filename fs = Some (True, fs')
           \<and> load_from_file m0 filename fs' = Some (True, m')
           \<and> length (all_nodes m') = length (all_nodes m) + 1"
proof -
  obtain t where t: "wf_tree m t" using assms(1) unfolding wf_model_def by blast
  then have w: "rt t = root_node m" "shaped (node_store m) None t" "distinct (preorder t)"
      "set (all_nodes m) = set (preorder t)" "distinct (all_nodes m)"
    unfolding wf_tree_def by blast+
  have c: "collect (node_store m) (root_node m) = Some (preorder t)"
    using collect_tree[OF w(2)] w(1) by (simp add: collect_def)
  obtain ls where ls: "save_lines m (preorder t) (preorder t) = Some ls"
      "length ls = length (preorder t)" "None \<notin> set ls"
    using save_lines_defined[OF assms(1), of "preorder t" "preorder t"] w(4) by auto
  let ?fs' = "fs\<lparr>file_lines := (file_lines fs)(filename \<mapsto> ls)\<rparr>"
  have s: "save_to_file m filename fs = Some (True, ?fs')"
    using assms(2) c ls(1) by (simp add: save_to_file_def)
  obtain t0 where t0: "wf_tree m0 t0" using assms(3) unfolding wf_model_def by blast
  have "file_lines ?fs' filename = Some ls" by simp
  then obtain m' where m': "load_from_file m0 filename ?fs' = Some (True, m')"
      "length (all_nodes m') = 1 + length (filter (\<lambda>l. l \<noteq> None) ls)"
    using load_from_file_open[OF t0, of ?fs' filename ls] by blast
  have "\<And>x. x \<in> set ls \<Longrightarrow> x \<noteq> None" using ls(3) by metis
  then have "filter (\<lambda>l. l \<noteq> None) ls = ls" by (simp only: filter_id_conv) blast
  moreover have "length (preorder t) = length (all_nodes m)"
    using w(3,4,5) by (metis distinct_card)
  ultimately have "length (all_nodes m') = length (all_nodes m) + 1" using m'(2) ls(2) by simp
  then show ?thesis using s m'(1) by blast
qed

text \<open>
  Claim C1, evaluated. \<^verbatim>\<open>save_to_file\<close> writes a line for the root, and
  \<^verbatim>\<open>load_from_file\<close> makes a node of every line that parses, the root's line included,
  below a fresh root. Saving the graph with one box (2 nodes) and loading the file into a
  fresh graph gives 3 nodes: the fresh root, a node without shape for the saved root, and
  the box. Saving the graph with a box below a box (3 nodes) gives 4 nodes, and the second
  box ends up below the node without shape instead of below the first box, because index
  \<open>k\<close> of the file is entry \<open>k + 1\<close> of the vector \<^verbatim>\<open>nodes\<close>.
\<close>

theorem save_load_adds_node:
  "all_nodes one_box = [0, 2]
   \<and> save_to_file one_box ''a.mod'' empty_fs
       = Some (True, empty_fs\<lparr>file_lines := [''a.mod'' \<mapsto> [Some root_line, Some (box_line 0)]]\<rparr>)
   \<and> (\<exists>m2. load_from_file model_t_ctor ''a.mod''
           (empty_fs\<lparr>file_lines := [''a.mod'' \<mapsto> [Some root_line, Some (box_line 0)]]\<rparr>)
         = Some (True, m2)
      \<and> root_node m2 = 1 \<and> all_nodes m2 = [1, 2, 4]
      \<and> collect (node_store m2) (root_node m2) = Some [1, 2, 4]
      \<and> (\<exists>g. node_store m2 2 = Some g \<and> shape g = None \<and> parent g = Some 1 \<and> children g = [])
      \<and> (\<exists>b. node_store m2 4 = Some b \<and> shape b = Some 3 \<and> parent b = Some 1)
      \<and> shape_store m2 3 = Some (box_t 0))
   \<and> all_nodes two_boxes = [0, 2, 4]
   \<and> save_to_file two_boxes ''b.mod'' empty_fs
       = Some (True, empty_fs\<lparr>file_lines :=
            [''b.mod'' \<mapsto> [Some root_line, Some (box_line 0), Some (box_line 1)]]\<rparr>)
   \<and> (\<exists>m3. load_from_file model_t_ctor ''b.mod''
           (empty_fs\<lparr>file_lines :=
              [''b.mod'' \<mapsto> [Some root_line, Some (box_line 0), Some (box_line 1)]]\<rparr>)
         = Some (True, m3)
      \<and> root_node m3 = 1 \<and> all_nodes m3 = [1, 2, 4, 6]
      \<and> collect (node_store m3) (root_node m3) = Some [1, 2, 6, 4]
      \<and> (\<exists>g. node_store m3 2 = Some g \<and> shape g = None \<and> parent g = Some 1 \<and> children g = [6])
      \<and> (\<exists>b. node_store m3 4 = Some b \<and> shape b = Some 3 \<and> parent b = Some 1 \<and> children b = [])
      \<and> (\<exists>c. node_store m3 6 = Some c \<and> shape c = Some 5 \<and> parent c = Some 2))"
  using one_box_eq(3) save_one_box load_one_box two_boxes_eq(3) save_two_boxes load_two_boxes
  by (intro conjI)

end
